theory Spec2Isabelle
  imports Complex_Main "HOL-Library.AList"
begin

section \<open>Data model\<close>

text \<open>
  The program is Python over numpy arrays. Arrays of a fixed row width are tuples, arrays
  of a length known at run time are lists, the float32 and float64 entries are real
  numbers (rounding, infinities and NaN are outside the model), the int32 labels are
  integers. Every exception the code can raise is a value of \<open>error\<close>, and a function
  that can raise returns \<open>error + 'a\<close> with \<open>Inl\<close> for the exception.
\<close>

datatype error = AssertionError | ValueError | IndexError | KeyError

type_synonym point = "real \<times> real"

text \<open>An anchor is \<open>(cx, cy, w, h)\<close>, an oriented rectangle \<open>(cx, cy, w, h, theta)\<close>
  with \<open>theta\<close> in degrees.\<close>

type_synonym anchor = "real \<times> real \<times> real \<times> real"
type_synonym rect = "real \<times> real \<times> real \<times> real \<times> real"

text \<open>The box \<open>combine_segs\<close> returns: \<open>(bcx, bcy, bw, bh, bar_theta, b)\<close>.\<close>

type_synonym final_box = "real \<times> real \<times> real \<times> real \<times> real \<times> real"

definition rect_cx :: "rect \<Rightarrow> real" where
  "rect_cx r = (case r of (cx, cy, w, h, theta) \<Rightarrow> cx)"

definition rect_cy :: "rect \<Rightarrow> real" where
  "rect_cy r = (case r of (cx, cy, w, h, theta) \<Rightarrow> cy)"

definition rect_w :: "rect \<Rightarrow> real" where
  "rect_w r = (case r of (cx, cy, w, h, theta) \<Rightarrow> w)"

definition rect_h :: "rect \<Rightarrow> real" where
  "rect_h r = (case r of (cx, cy, w, h, theta) \<Rightarrow> h)"

definition rect_theta :: "rect \<Rightarrow> real" where
  "rect_theta r = (case r of (cx, cy, w, h, theta) \<Rightarrow> theta)"

definition box_cx :: "final_box \<Rightarrow> real" where
  "box_cx r = (case r of (cx, cy, w, h, theta, b) \<Rightarrow> cx)"

definition box_cy :: "final_box \<Rightarrow> real" where
  "box_cy r = (case r of (cx, cy, w, h, theta, b) \<Rightarrow> cy)"

definition box_w :: "final_box \<Rightarrow> real" where
  "box_w r = (case r of (cx, cy, w, h, theta, b) \<Rightarrow> w)"

definition box_h :: "final_box \<Rightarrow> real" where
  "box_h r = (case r of (cx, cy, w, h, theta, b) \<Rightarrow> h)"

definition box_theta :: "final_box \<Rightarrow> real" where
  "box_theta r = (case r of (cx, cy, w, h, theta, b) \<Rightarrow> theta)"

section \<open>Geometry primitives\<close>

text \<open>
  The trigonometric helpers of the source take degrees. The floats are modelled by real
  numbers, and at an odd multiple of 90 degrees the two part: the real tangent has a
  pole there, where \<open>tan\<close> is 0 in HOL by convention, while \<open>theta / 180.0 * np.pi\<close> is
  a float beside the pole and \<open>np.tan\<close> of it a number of the order of \<open>10^16\<close>, after
  which rounding decides the results. So \<open>tan_deg\<close> stands for the source's \<open>tan\<close> only
  where \<open>cos_deg theta \<noteq> 0\<close>, and what is proved below about the fitted line of
  \<open>combine_segs\<close> for arbitrary segments assumes that of the mean angle. (Rectangles in
  canonical form have angles in \<open>[-45, 45]\<close>, and so has their mean.)
\<close>

definition sin_deg :: "real \<Rightarrow> real" where
  "sin_deg theta = sin (theta / 180 * pi)"

definition cos_deg :: "real \<Rightarrow> real" where
  "cos_deg theta = cos (theta / 180 * pi)"

definition tan_deg :: "real \<Rightarrow> real" where
  "tan_deg theta = tan (theta / 180 * pi)"

text \<open>One row of the loop of \<open>transform_cv_rect\<close>, and the loop over all rows.\<close>

definition transform_cv_rect_row :: "rect \<Rightarrow> rect" where
  "transform_cv_rect_row r =
     (case r of (cx, cy, w, h, theta) \<Rightarrow>
        if \<bar>theta\<bar> > 45 \<or> (\<bar>theta\<bar> = 45 \<and> w < h)
        then (cx, cy, h, w, 90 + theta)
        else (cx, cy, w, h, theta))"

definition transform_cv_rect :: "rect list \<Rightarrow> rect list" where
  "transform_cv_rect rects = map transform_cv_rect_row rects"

text \<open>
  \<open>cv2.getRotationMatrix2D(center, angle, scale)\<close> as OpenCV documents it: with
  \<open>a = scale * cos angle\<close> and \<open>b = scale * sin angle\<close> the 2x3 matrix
  \<open>[[a, b, (1 - a) * cx - b * cy], [-b, a, b * cx + (1 - a) * cy]]\<close>; and
  \<open>np.dot\<close> of such a matrix with the vector \<open>[x, y, 1]\<close>.
\<close>

type_synonym matrix23 = "(real \<times> real \<times> real) \<times> (real \<times> real \<times> real)"

definition getRotationMatrix2D :: "point \<Rightarrow> real \<Rightarrow> real \<Rightarrow> matrix23" where
  "getRotationMatrix2D center angle scale =
     (case center of (cx, cy) \<Rightarrow>
        let a = scale * cos_deg angle; b = scale * sin_deg angle
        in ((a, b, (1 - a) * cx - b * cy), (- b, a, b * cx + (1 - a) * cy)))"

definition dot23 :: "matrix23 \<Rightarrow> real \<times> real \<times> real \<Rightarrow> point" where
  "dot23 M v =
     (case M of ((m00, m01, m02), (m10, m11, m12)) \<Rightarrow>
      case v of (x, y, z) \<Rightarrow>
        (m00 * x + m01 * y + m02 * z, m10 * x + m11 * y + m12 * z))"

text \<open>
  The steps 2, 3 and 4 of the derivation of a segment. A box is the vector
  \<open>[cx, cy, w, h, theta]\<close>. (The shape assertions of the two rotations also admit a
  vector of length 4, which their unpacking \<open>cx, cy, w, h, theta = bbox[...]\<close> then
  refuses with a \<open>ValueError\<close>; every call in the module passes five values, as the
  type \<open>rect\<close> has.)
\<close>

definition rotate_oriented_bbox_to_horizontal :: "point \<Rightarrow> rect \<Rightarrow> rect" where
  "rotate_oriented_bbox_to_horizontal center bbox =
     (case bbox of (cx, cy, w, h, theta) \<Rightarrow>
        let M = getRotationMatrix2D center theta 1 in
        case dot23 M (cx, cy, 1) of (cx', cy') \<Rightarrow> (cx', cy', w, h, theta))"

definition crop_horizontal_bbox_using_anchor :: "rect \<Rightarrow> anchor \<Rightarrow> rect" where
  "crop_horizontal_bbox_using_anchor bbox anchor =
     (case anchor of (acx, acy, aw, ah) \<Rightarrow>
      case bbox of (cx, cy, w, h, theta) \<Rightarrow>
        let axmin = acx - aw / 2;
            axmax = acx + aw / 2;
            xmin = cx - w / 2;
            xmax = cx + w / 2;
            xmin = max xmin axmin;
            xmax = min xmax axmax;
            cx = (xmin + xmax) / 2;
            w = xmax - xmin
        in (cx, cy, w, h, theta))"

definition rotate_horizontal_bbox_to_oriented :: "point \<Rightarrow> rect \<Rightarrow> rect" where
  "rotate_horizontal_bbox_to_oriented center bbox =
     (case bbox of (cx, cy, w, h, theta) \<Rightarrow>
        let M = getRotationMatrix2D center (- theta) 1 in
        case dot23 M (cx, cy, 1) of (cx', cy') \<Rightarrow> (cx', cy', w, h, theta))"

definition cal_seg_gt_for_single_anchor :: "anchor \<Rightarrow> rect \<Rightarrow> rect" where
  "cal_seg_gt_for_single_anchor anchor rect =
     (case anchor of (acx, acy, aw, ah) \<Rightarrow>
        let center = (acx, acy);
            rect = rotate_oriented_bbox_to_horizontal center rect;
            rect = crop_horizontal_bbox_using_anchor rect anchor;
            rect = rotate_horizontal_bbox_to_oriented center rect
        in rect)"

section \<open>Combining segments to bounding boxes\<close>

text \<open>\<open>np.mean\<close> of a one-dimensional array and the Euclidean distance
  \<open>np.sqrt(np.sum((point1 - point2) ** 2))\<close> of two points.\<close>

definition mean_list :: "real list \<Rightarrow> real" where
  "mean_list xs = sum_list xs / real (length xs)"

definition point_dist :: "point \<Rightarrow> point \<Rightarrow> real" where
  "point_dist p q = sqrt ((fst p - fst q)\<^sup>2 + (snd p - snd q)\<^sup>2)"

text \<open>
  The local variables \<open>bar_theta\<close>, \<open>b\<close> and \<open>proj_points\<close> of \<open>combine_segs\<close>.
  The numpy expressions work on whole columns; here they are maps over the segments.
\<close>

definition seg_bar_theta :: "rect list \<Rightarrow> real" where
  "seg_bar_theta segs = mean_list (map rect_theta segs)"

definition seg_bias :: "rect list \<Rightarrow> real" where
  "seg_bias segs =
     (let k = tan_deg (seg_bar_theta segs)
      in mean_list (map (\<lambda>s. rect_cy s - k * rect_cx s) segs))"

definition seg_proj_points :: "rect list \<Rightarrow> point list" where
  "seg_proj_points segs =
     (let bar_theta = seg_bar_theta segs;
          k = tan_deg bar_theta;
          b = seg_bias segs;
          projs = map (\<lambda>s. (rect_cx s + k * (rect_cy s - b)) / sqrt (1 + k\<^sup>2)) segs
      in map (\<lambda>p. (p * cos_deg bar_theta, p * sin_deg bar_theta)) projs)"

text \<open>
  The search for the farthest pair: the body of the inner loop on the state
  \<open>(max_dist, idx1, idx2)\<close>, and the two nested loops started at \<open>(0, -1, -1)\<close>.
\<close>

definition max_dist_step :: "point list \<Rightarrow> nat \<Rightarrow> nat \<Rightarrow> real \<times> int \<times> int \<Rightarrow> real \<times> int \<times> int" where
  "max_dist_step proj_points i j st =
     (case st of (max_dist, idx1, idx2) \<Rightarrow>
        let dist = point_dist (proj_points ! i) (proj_points ! j)
        in if dist > max_dist then (dist, int i, int j) else (max_dist, idx1, idx2))"

definition max_dist_search :: "point list \<Rightarrow> real \<times> int \<times> int" where
  "max_dist_search proj_points =
     fold (\<lambda>i st. fold (max_dist_step proj_points i) [i + 1 ..< length proj_points] st)
       [0 ..< length proj_points] (0, - 1, - 1)"

text \<open>
  \<open>combine_segs\<close>. An empty group is a one-dimensional array, so \<open>assert segs.ndim == 2\<close>
  fails on it; the rows are five wide by their type. The second assertion is
  \<open>assert idx1 >= 0 and idx2 >= 0\<close>.
\<close>

definition combine_segs :: "rect list \<Rightarrow> error + final_box" where
  "combine_segs segs =
     (if segs = [] then Inl AssertionError
      else
        let bar_theta = seg_bar_theta segs;
            b = seg_bias segs;
            proj_points = seg_proj_points segs
        in case max_dist_search proj_points of (max_dist, idx1, idx2) \<Rightarrow>
          if idx1 \<ge> 0 \<and> idx2 \<ge> 0 then
            let seg1 = segs ! nat idx1;
                seg2 = segs ! nat idx2;
                bcx = (rect_cx seg1 + rect_cx seg2) / 2;
                bcy = (rect_cy seg1 + rect_cy seg2) / 2;
                bh = mean_list (map rect_h segs);
                bw = max_dist + (rect_w seg1 + rect_w seg2) / 2
            in Inr (bcx, bcy, bw, bh, bar_theta, b)
          else Inl AssertionError)"

section \<open>Configuration and collaborators\<close>

text \<open>
  The module \<open>config\<close> is not among the sources; what the code reads from it is a
  parameter. \<open>feat_shapes\<close> lists \<open>config.feat_shapes[name]\<close>, a pair \<open>(h, w)\<close>, for
  the names of \<open>config.feat_layers\<close> in their order (the names are distinct keys, so a
  layer is known by its position). \<open>image_shape\<close> is \<open>(h_I, w_I)\<close>.
\<close>

record config =
  feat_shapes :: "(nat \<times> nat) list"
  max_height_ratio :: real
  seg_confidence_threshold :: real
  link_confidence_threshold :: real
  default_anchors :: "anchor list"
  image_shape :: "real \<times> real"

text \<open>
  The contour primitives of \<open>util.img\<close> and \<open>cv2.minAreaRect\<close> are parameters too:
  \<open>'c\<close> is the type of contours, and \<open>minAreaRect\<close> returns
  \<open>((cx, cy), (w, h), theta)\<close>.
\<close>

record 'c collaborators =
  points_to_contour :: "point list \<Rightarrow> 'c"
  is_in_contour :: "point \<Rightarrow> 'c \<Rightarrow> bool"
  minAreaRect :: "'c \<Rightarrow> point \<times> point \<times> real"

section \<open>Matching anchors to text boxes\<close>

text \<open>A row of \<open>xs\<close> or of \<open>ys\<close> holds the four corner coordinates of one polygon;
  \<open>bbox_points\<close> is \<open>zip(xs[bbox_idx, :], ys[bbox_idx, :])\<close>.\<close>

type_synonym row4 = "real \<times> real \<times> real \<times> real"

definition bbox_points :: "row4 \<Rightarrow> row4 \<Rightarrow> point list" where
  "bbox_points xrow yrow =
     (case xrow of (x1, x2, x3, x4) \<Rightarrow>
      case yrow of (y1, y2, y3, y4) \<Rightarrow> [(x1, y1), (x2, y2), (x3, y3), (x4, y4)])"

text \<open>\<open>min_area_rect\<close> runs over the rows of \<open>xs\<close> and reads the same rows of \<open>ys\<close>.\<close>

definition min_area_rect :: "'c collaborators \<Rightarrow> row4 list \<Rightarrow> row4 list \<Rightarrow> error + rect list" where
  "min_area_rect ext xs ys =
     (if length ys < length xs then Inl IndexError
      else Inr (map (\<lambda>idx.
          let points = bbox_points (xs ! idx) (ys ! idx);
              cnt = points_to_contour ext points
          in case minAreaRect ext cnt of ((cx, cy), (w, h), theta) \<Rightarrow> (cx, cy, w, h, theta))
        [0 ..< length xs]))"

text \<open>The rectangles and the contours that \<open>match_anchor_to_text_boxes\<close> prepares.\<close>

definition polygon_rects :: "'c collaborators \<Rightarrow> row4 list \<Rightarrow> row4 list \<Rightarrow> error + rect list" where
  "polygon_rects ext xs ys =
     (case min_area_rect ext xs ys of Inl e \<Rightarrow> Inl e | Inr rects \<Rightarrow> Inr (transform_cv_rect rects))"

definition polygon_contours :: "'c collaborators \<Rightarrow> row4 list \<Rightarrow> row4 list \<Rightarrow> 'c list" where
  "polygon_contours ext xs ys =
     map (\<lambda>bbox_idx. points_to_contour ext (bbox_points (xs ! bbox_idx) (ys ! bbox_idx)))
       [0 ..< length xs]"

text \<open>
  The height ratio test: \<open>ratio = aw / height\<close> and
  \<open>max(ratio, 1/ratio) <= config.max_height_ratio\<close>. Where the source divides by zero
  (a height of 0 or an anchor side of 0) numpy raises nothing: the float32 result is an
  infinity or NaN and the comparison is false, for heights and anchor sides that are
  not negative. The model says so, since the real quotient \<open>x / 0\<close> is \<open>0\<close> in HOL.
\<close>

definition height_ratio_matched :: "real \<Rightarrow> real \<Rightarrow> real \<Rightarrow> bool" where
  "height_ratio_matched aw height mhr =
     (if height = 0 \<or> aw = 0 then False
      else let ratio = aw / height in max ratio (1 / ratio) \<le> mhr)"

text \<open>
  The body of the loop over \<open>bbox_idx\<close>, on the arrays \<open>(labels, seg_gt)\<close>. A failed
  centre test is the \<open>continue\<close>.
\<close>

definition match_bbox ::
  "'c collaborators \<Rightarrow> real \<Rightarrow> 'c list \<Rightarrow> rect list \<Rightarrow> anchor \<Rightarrow> nat \<Rightarrow> nat
     \<Rightarrow> int list \<times> rect list \<Rightarrow> int list \<times> rect list" where
  "match_bbox ext mhr cnts rects anchor anchor_idx bbox_idx st =
     (case st of (labels, seg_gt) \<Rightarrow>
      case anchor of (acx, acy, aw, ah) \<Rightarrow>
        let center_point_matched = is_in_contour ext (acx, acy) (cnts ! bbox_idx) in
        if \<not> center_point_matched then (labels, seg_gt)
        else
          let rect = rects ! bbox_idx;
              height = min (rect_w rect) (rect_h rect);
              height_matched = height_ratio_matched aw height mhr
          in if height_matched \<and> center_point_matched
             then (labels[anchor_idx := int bbox_idx],
                   seg_gt[anchor_idx := cal_seg_gt_for_single_anchor anchor rect])
             else (labels, seg_gt))"

text \<open>
  \<open>match_anchor_to_text_boxes\<close>. The rows of \<open>anchors\<close>, \<open>xs\<close> and \<open>ys\<close> are four wide
  by their type; what is left of the assertions is that \<open>xs\<close> and \<open>ys\<close> have the same
  number of rows.
\<close>

definition match_anchor_to_text_boxes ::
  "'c collaborators \<Rightarrow> real \<Rightarrow> anchor list \<Rightarrow> row4 list \<Rightarrow> row4 list
     \<Rightarrow> error + (int list \<times> rect list)" where
  "match_anchor_to_text_boxes ext mhr anchors xs ys =
     (if length xs \<noteq> length ys then Inl AssertionError
      else
        let num_anchors = length anchors;
            labels = replicate num_anchors (- 1);
            seg_gt = replicate num_anchors (0, 0, 0, 0, 0);
            num_bboxes = length xs
        in case polygon_rects ext xs ys of
             Inl e \<Rightarrow> Inl e
           | Inr rects \<Rightarrow>
               let cnts = polygon_contours ext xs ys
               in Inr (fold (\<lambda>anchor_idx st.
                          fold (match_bbox ext mhr cnts rects (anchors ! anchor_idx) anchor_idx)
                            [0 ..< num_bboxes] st)
                        [0 ..< num_anchors] (labels, seg_gt)))"

section \<open>Link ground truth\<close>

text \<open>Sequencing of steps that can raise, and a \<open>for\<close> loop whose body can raise.\<close>

definition bind_err :: "error + 'a \<Rightarrow> ('a \<Rightarrow> error + 'b) \<Rightarrow> error + 'b" where
  "bind_err m f = (case m of Inl e \<Rightarrow> Inl e | Inr x \<Rightarrow> f x)"

fun for_each :: "('a \<Rightarrow> 's \<Rightarrow> error + 's) \<Rightarrow> 'a list \<Rightarrow> 's \<Rightarrow> error + 's" where
  "for_each body [] s = Inr s"
| "for_each body (a # as) s = bind_err (body a s) (for_each body as)"

text \<open>
  Arrays of two and three dimensions are their row-major lists, with the shape beside
  them. A read or a write outside \<open>[0, h) \<times> [0, w)\<close> is \<open>IndexError\<close> here. (numpy
  itself wraps a negative index that is not below \<open>-h\<close>; the model is stricter, so a
  run of the model that does not raise \<open>IndexError\<close> made no access outside the grid.)
\<close>

definition grid_get :: "nat \<Rightarrow> nat \<Rightarrow> 'a list \<Rightarrow> int \<Rightarrow> int \<Rightarrow> error + 'a" where
  "grid_get h w grid y x =
     (if 0 \<le> y \<and> y < int h \<and> 0 \<le> x \<and> x < int w
      then Inr (grid ! (nat y * w + nat x)) else Inl IndexError)"

definition cube_get :: "nat \<Rightarrow> nat \<Rightarrow> nat \<Rightarrow> 'a list \<Rightarrow> nat \<Rightarrow> nat \<Rightarrow> nat \<Rightarrow> error + 'a" where
  "cube_get h w d cube y x n =
     (if y < h \<and> x < w \<and> n < d then Inr (cube ! ((y * w + x) * d + n)) else Inl IndexError)"

definition cube_set :: "nat \<Rightarrow> nat \<Rightarrow> nat \<Rightarrow> 'a list \<Rightarrow> nat \<Rightarrow> nat \<Rightarrow> nat \<Rightarrow> 'a \<Rightarrow> error + 'a list" where
  "cube_set h w d cube y x n v =
     (if y < h \<and> x < w \<and> n < d then Inr (cube[(y * w + x) * d + n := v]) else Inl IndexError)"

definition vec_get :: "'a list \<Rightarrow> int \<Rightarrow> error + 'a" where
  "vec_get v i = (if 0 \<le> i \<and> i < int (length v) then Inr (v ! nat i) else Inl IndexError)"

text \<open>\<open>np.hstack\<close> of a list of one-dimensional arrays; it raises on the empty list
  (\<open>ValueError: need at least one array to concatenate\<close>; the releases of numpy
  differ in the exception, none of them returns).\<close>

definition hstack :: "'a list list \<Rightarrow> error + 'a list" where
  "hstack arrays = (if arrays = [] then Inl ValueError else Inr (concat arrays))"

text \<open>
  \<open>reshape_labels_by_layer\<close>: the loop over the layers with the running \<open>idx\<close>. A slice
  past the end of \<open>labels\<close> is short, and \<open>np.reshape\<close> of a slice of the wrong size
  raises \<open>ValueError\<close>; after the loop \<open>assert idx == len(labels)\<close>. The result lists
  the layers' grids in layer order (the dictionary of the source, by layer position).
\<close>

fun reshape_labels_loop :: "(nat \<times> nat) list \<Rightarrow> nat \<Rightarrow> 'a list \<Rightarrow> error + 'a list list" where
  "reshape_labels_loop [] idx labels =
     (if idx = length labels then Inr [] else Inl AssertionError)"
| "reshape_labels_loop (layer_shape # shapes) idx labels =
     (let label_length = fst layer_shape * snd layer_shape;
          layer_match_result = take label_length (drop idx labels)
      in if length layer_match_result \<noteq> label_length then Inl ValueError
         else bind_err (reshape_labels_loop shapes (idx + label_length) labels)
                (\<lambda>layer_labels. Inr (layer_match_result # layer_labels)))"

definition reshape_labels_by_layer :: "(nat \<times> nat) list \<Rightarrow> 'a list \<Rightarrow> error + 'a list list" where
  "reshape_labels_by_layer shapes labels = reshape_labels_loop shapes 0 labels"

text \<open>
  \<open>reshape_link_gt_by_layer\<close>: one loop over all layers with 8 slots a cell, one over the
  layers from the second on with 4 slots a cell, then \<open>assert idx == len(link_gt)\<close>.
  The second list starts with the second layer.
\<close>

fun reshape_links_loop :: "nat \<Rightarrow> (nat \<times> nat) list \<Rightarrow> nat \<Rightarrow> 'a list \<Rightarrow> error + ('a list list \<times> nat)" where
  "reshape_links_loop d [] idx link_gt = Inr ([], idx)"
| "reshape_links_loop d (layer_shape # shapes) idx link_gt =
     (let len = fst layer_shape * snd layer_shape * d;
          layer_link_gt = take len (drop idx link_gt)
      in if length layer_link_gt \<noteq> len then Inl ValueError
         else bind_err (reshape_links_loop d shapes (idx + len) link_gt)
                (\<lambda>(layers, idx'). Inr (layer_link_gt # layers, idx')))"

definition reshape_link_gt_by_layer ::
  "(nat \<times> nat) list \<Rightarrow> 'a list \<Rightarrow> error + ('a list list \<times> 'a list list)" where
  "reshape_link_gt_by_layer shapes link_gt =
     bind_err (reshape_links_loop 8 shapes 0 link_gt) (\<lambda>(inter_layer_link_gts, idx).
     bind_err (reshape_links_loop 4 (tl shapes) idx link_gt) (\<lambda>(cross_layer_link_gts, idx).
       if idx = length link_gt then Inr (inter_layer_link_gts, cross_layer_link_gts)
       else Inl AssertionError))"

definition get_inter_layer_neighbours :: "int \<Rightarrow> int \<Rightarrow> (int \<times> int) list" where
  "get_inter_layer_neighbours x y =
     [(x - 1, y - 1), (x, y - 1), (x + 1, y - 1),
      (x - 1, y),                 (x + 1, y),
      (x - 1, y + 1), (x, y + 1), (x + 1, y + 1)]"

definition get_cross_layer_neighbours :: "int \<Rightarrow> int \<Rightarrow> (int \<times> int) list" where
  "get_cross_layer_neighbours x y =
     [(2 * x, 2 * y), (2 * x + 1, 2 * y), (2 * x, 2 * y + 1), (2 * x + 1, 2 * y + 1)]"

definition is_valid_cord :: "int \<Rightarrow> int \<Rightarrow> int \<Rightarrow> int \<Rightarrow> bool" where
  "is_valid_cord x y w h = (x \<ge> 0 \<and> x < w \<and> y \<ge> 0 \<and> y < h)"

text \<open>
  The body of a loop \<open>for nidx, nxy in enumerate(neighbours)\<close> of \<open>cal_link_gt\<close>:
  \<open>(nh, nw, n_labels)\<close> is the grid the neighbour lies in (the layer itself, or the
  previous layer), \<open>(h, w, d)\<close> the shape of the link array written to.
\<close>

definition link_gt_neighbour ::
  "nat \<Rightarrow> nat \<Rightarrow> int list \<Rightarrow> int \<Rightarrow> nat \<Rightarrow> nat \<Rightarrow> nat \<Rightarrow> nat \<Rightarrow> nat
     \<Rightarrow> nat \<times> int \<times> int \<Rightarrow> int list \<Rightarrow> error + int list" where
  "link_gt_neighbour nh nw n_labels matched_idx h w d y x nb link_gt =
     (case nb of (nidx, nx, ny) \<Rightarrow>
        if is_valid_cord nx ny (int nw) (int nh) then
          bind_err (grid_get nh nw n_labels ny nx) (\<lambda>n_matched_idx.
            if matched_idx = n_matched_idx then cube_set h w d link_gt y x nidx 1
            else Inr link_gt)
        else Inr link_gt)"

text \<open>
  The body of the loops over \<open>x\<close> and \<open>y\<close>, on the pair
  \<open>(inter_layer_link_gt, cross_layer_link_gt)\<close>. For the first layer the second array
  does not exist in the source; the model carries the empty list there and never
  touches it.
\<close>

definition link_gt_cell ::
  "(nat \<times> nat) list \<Rightarrow> int list list \<Rightarrow> nat \<Rightarrow> nat \<Rightarrow> nat
     \<Rightarrow> int list \<times> int list \<Rightarrow> error + (int list \<times> int list)" where
  "link_gt_cell shapes layer_labels layer_idx x y st =
     (case st of (inter_layer_link_gt, cross_layer_link_gt) \<Rightarrow>
      let layer_match_result = layer_labels ! layer_idx;
          h = fst (shapes ! layer_idx);
          w = snd (shapes ! layer_idx)
      in bind_err (grid_get h w layer_match_result (int y) (int x)) (\<lambda>matched_idx.
        if matched_idx \<ge> 0 then
          bind_err (for_each (link_gt_neighbour h w layer_match_result matched_idx h w 8 y x)
                      (enumerate 0 (get_inter_layer_neighbours (int x) (int y)))
                      inter_layer_link_gt) (\<lambda>inter_layer_link_gt.
            if layer_idx > 0 then
              let ph = fst (shapes ! (layer_idx - 1));
                  pw = snd (shapes ! (layer_idx - 1));
                  previous_layer_match_result = layer_labels ! (layer_idx - 1)
              in bind_err (for_each
                      (link_gt_neighbour ph pw previous_layer_match_result matched_idx h w 4 y x)
                      (enumerate 0 (get_cross_layer_neighbours (int x) (int y)))
                      cross_layer_link_gt) (\<lambda>cross_layer_link_gt.
                   Inr (inter_layer_link_gt, cross_layer_link_gt))
            else Inr (inter_layer_link_gt, cross_layer_link_gt))
        else Inr (inter_layer_link_gt, cross_layer_link_gt)))"

text \<open>One round of the loop over the layers: the two zero arrays and the loops over
  \<open>x\<close> (outer) and \<open>y\<close> (inner).\<close>

definition link_gt_layer ::
  "(nat \<times> nat) list \<Rightarrow> int list list \<Rightarrow> nat \<Rightarrow> error + (int list \<times> int list)" where
  "link_gt_layer shapes layer_labels layer_idx =
     (let h = fst (shapes ! layer_idx);
          w = snd (shapes ! layer_idx);
          inter_layer_link_gt = replicate (h * w * 8) 0;
          cross_layer_link_gt = (if layer_idx > 0 then replicate (h * w * 4) 0 else [])
      in for_each (\<lambda>x. for_each (link_gt_cell shapes layer_labels layer_idx x) [0 ..< h])
           [0 ..< w] (inter_layer_link_gt, cross_layer_link_gt))"

definition link_gt_layers ::
  "(nat \<times> nat) list \<Rightarrow> int list list \<Rightarrow> nat \<Rightarrow> int list list \<times> int list list
     \<Rightarrow> error + (int list list \<times> int list list)" where
  "link_gt_layers shapes layer_labels layer_idx st =
     (case st of (inter_layer_link_gts, cross_layer_link_gts) \<Rightarrow>
        bind_err (link_gt_layer shapes layer_labels layer_idx)
          (\<lambda>(inter_layer_link_gt, cross_layer_link_gt).
             Inr (inter_layer_link_gts @ [inter_layer_link_gt],
                  if layer_idx > 0 then cross_layer_link_gts @ [cross_layer_link_gt]
                  else cross_layer_link_gts)))"

definition cal_link_gt :: "(nat \<times> nat) list \<Rightarrow> int list \<Rightarrow> error + int list" where
  "cal_link_gt shapes labels =
     bind_err (reshape_labels_by_layer shapes labels) (\<lambda>layer_labels.
     bind_err (for_each (link_gt_layers shapes layer_labels) [0 ..< length shapes] ([], []))
       (\<lambda>(inter_layer_link_gts, cross_layer_link_gts).
     bind_err (hstack inter_layer_link_gts) (\<lambda>inter_layer_link_gts.
     bind_err (hstack cross_layer_link_gts) (\<lambda>cross_layer_link_gts.
       Inr (inter_layer_link_gts @ cross_layer_link_gts)))))"

section \<open>Linking segments together\<close>

text \<open>
  \<open>get_root\<close> has a \<open>while\<close> loop that follows parent pointers and stops only at a
  pointer \<open>-1\<close>, so a run of \<open>group_segs\<close> has three outcomes: it does not return
  (\<open>None\<close>), it raises (\<open>Some (Inl e)\<close>) or it returns (\<open>Some (Inr v)\<close>).
\<close>

definition try_err :: "error + 'a \<Rightarrow> ('a \<Rightarrow> (error + 'b) option) \<Rightarrow> (error + 'b) option" where
  "try_err m f = (case m of Inl e \<Rightarrow> Some (Inl e) | Inr x \<Rightarrow> f x)"

definition bind_run :: "(error + 'a) option \<Rightarrow> ('a \<Rightarrow> (error + 'b) option) \<Rightarrow> (error + 'b) option" where
  "bind_run m f = (case m of None \<Rightarrow> None | Some (Inl e) \<Rightarrow> Some (Inl e) | Some (Inr x) \<Rightarrow> f x)"

fun for_each_run :: "('a \<Rightarrow> 's \<Rightarrow> (error + 's) option) \<Rightarrow> 'a list \<Rightarrow> 's \<Rightarrow> (error + 's) option" where
  "for_each_run body [] s = Some (Inr s)"
| "for_each_run body (a # as) s = bind_run (body a s) (for_each_run body as)"

text \<open>
  The dictionary \<open>mask\<close> (the variable \<open>mask_tbl\<close> here) maps a segment index to its
  parent, \<open>-1\<close> for a root. It is an association list in insertion order; an
  assignment to a key it has keeps the key's place. Reading a key it does not have is \<open>KeyError\<close>. The loop of \<open>get_root\<close> runs on
  the pair \<open>(idx, parent)\<close>.
\<close>

type_synonym mask = "(int \<times> int) list"

partial_function (option) get_root_loop :: "mask \<Rightarrow> int \<Rightarrow> int \<Rightarrow> (error + int) option" where
  "get_root_loop mask_tbl idx parent =
     (if parent \<noteq> - 1 then
        (case map_of mask_tbl parent of
           None \<Rightarrow> Some (Inl KeyError)
         | Some parent' \<Rightarrow> get_root_loop mask_tbl parent parent')
      else Some (Inr idx))"

declare get_root_loop.simps [code]

definition get_root :: "mask \<Rightarrow> int \<Rightarrow> (error + int) option" where
  "get_root mask_tbl idx =
     (case map_of mask_tbl idx of
        None \<Rightarrow> Some (Inl KeyError)
      | Some parent \<Rightarrow> get_root_loop mask_tbl idx parent)"

text \<open>The local function \<open>union\<close> of \<open>group_segs\<close>; it returns the new \<open>mask\<close>.\<close>

definition union_mask :: "mask \<Rightarrow> int \<Rightarrow> int \<Rightarrow> (error + mask) option" where
  "union_mask mask_tbl idx1 idx2 =
     bind_run (get_root mask_tbl idx1) (\<lambda>root1.
     bind_run (get_root mask_tbl idx2) (\<lambda>root2.
       if root1 \<noteq> root2 then Some (Inr (AList.update root1 root2 mask_tbl))
       else Some (Inr mask_tbl)))"

text \<open>
  \<open>to_list\<close>. Python 2 does not fix the order in which a dictionary is iterated; the
  parameter \<open>dict_order\<close> gives, for the keys of a dictionary in insertion order, the
  order of iteration. The first loop fills \<open>result\<close>, the second is the list
  comprehension \<open>[result[root] for root in result]\<close>.
\<close>

definition to_list_step :: "mask \<Rightarrow> int \<Rightarrow> (int \<times> int list) list \<Rightarrow> (error + (int \<times> int list) list) option" where
  "to_list_step mask_tbl idx result =
     bind_run (get_root mask_tbl idx) (\<lambda>root.
       let result = (if map_of result root = None then AList.update root [] result else result)
       in case map_of result root of
            None \<Rightarrow> Some (Inl KeyError)
          | Some members \<Rightarrow> Some (Inr (AList.update root (members @ [idx]) result)))"

definition to_list :: "(int list \<Rightarrow> int list) \<Rightarrow> mask \<Rightarrow> (error + int list list) option" where
  "to_list dict_order mask_tbl =
     bind_run (for_each_run (to_list_step mask_tbl) (dict_order (map fst mask_tbl)) []) (\<lambda>result.
       for_each_run (\<lambda>root groups.
           case map_of result root of
             None \<Rightarrow> Some (Inl KeyError)
           | Some members \<Rightarrow> Some (Inr (groups @ [members])))
         (dict_order (map fst result)) [])"

text \<open>
  The body of a loop \<open>for nidx, nxy in enumerate(neighbours)\<close> of \<open>group_segs\<close>:
  \<open>(nh, nw, n_seg_index)\<close> is the index grid of the layer the neighbour lies in,
  \<open>(h, w, d, link_score)\<close> the link scores of the layer of the cell. The three
  conditions are tested from left to right, as \<open>and\<close> does.
\<close>

definition group_neighbour ::
  "config \<Rightarrow> real list \<Rightarrow> nat \<Rightarrow> nat \<Rightarrow> int list \<Rightarrow> nat \<Rightarrow> nat \<Rightarrow> nat \<Rightarrow> real list
     \<Rightarrow> nat \<Rightarrow> nat \<Rightarrow> int \<Rightarrow> nat \<times> int \<times> int \<Rightarrow> mask \<Rightarrow> (error + mask) option" where
  "group_neighbour cfg seg_scores nh nw n_seg_index h w d link_score y x seg_index nb mask_tbl =
     (case nb of (nidx, nx, ny) \<Rightarrow>
        if is_valid_cord nx ny (int nw) (int nh) then
          try_err (grid_get nh nw n_seg_index ny nx) (\<lambda>n_seg_index.
          try_err (vec_get seg_scores n_seg_index) (\<lambda>n_seg_score.
            if n_seg_score \<ge> seg_confidence_threshold cfg then
              try_err (cube_get h w d link_score y x nidx) (\<lambda>score.
                if score \<ge> link_confidence_threshold cfg
                then union_mask mask_tbl seg_index n_seg_index
                else Some (Inr mask_tbl))
            else Some (Inr mask_tbl)))
        else Some (Inr mask_tbl))"

text \<open>The body of the loops over \<open>y\<close> (outer) and \<open>x\<close> (inner) of \<open>group_segs\<close>.\<close>

definition group_cell ::
  "config \<Rightarrow> real list \<Rightarrow> int list list \<Rightarrow> real list list \<Rightarrow> real list list
     \<Rightarrow> nat \<Rightarrow> nat \<Rightarrow> nat \<Rightarrow> mask \<Rightarrow> (error + mask) option" where
  "group_cell cfg seg_scores layer_seg_indexes layer_inter_link_scores layer_cross_link_scores
       layer_index y x mask_tbl =
     (let lh = fst (feat_shapes cfg ! layer_index);
          lw = snd (feat_shapes cfg ! layer_index);
          layer_seg_index = layer_seg_indexes ! layer_index;
          layer_inter_link_score = layer_inter_link_scores ! layer_index
      in try_err (grid_get lh lw layer_seg_index (int y) (int x)) (\<lambda>seg_index.
         try_err (vec_get seg_scores seg_index) (\<lambda>seg_score.
           if seg_score \<ge> seg_confidence_threshold cfg then
             bind_run (for_each_run
                 (group_neighbour cfg seg_scores lh lw layer_seg_index lh lw 8
                    layer_inter_link_score y x seg_index)
                 (enumerate 0 (get_inter_layer_neighbours (int x) (int y))) mask_tbl) (\<lambda>mask_tbl.
               if layer_index > 0 then
                 let plh = fst (feat_shapes cfg ! (layer_index - 1));
                     plw = snd (feat_shapes cfg ! (layer_index - 1));
                     previous_layer_seg_index = layer_seg_indexes ! (layer_index - 1);
                     layer_cross_link_score = layer_cross_link_scores ! (layer_index - 1)
                 in for_each_run
                      (group_neighbour cfg seg_scores plh plw previous_layer_seg_index lh lw 4
                         layer_cross_link_score y x seg_index)
                      (enumerate 0 (get_cross_layer_neighbours (int x) (int y))) mask_tbl
               else Some (Inr mask_tbl))
           else Some (Inr mask_tbl))))"

text \<open>
  \<open>group_segs\<close>: \<open>valid_segs\<close> are the indices whose score reaches the threshold, in
  ascending order, as \<open>np.where\<close> lists them; the cross-layer scores of a layer after
  the first stand at the layer's position less one.
\<close>

definition valid_segs :: "config \<Rightarrow> real list \<Rightarrow> int list" where
  "valid_segs cfg seg_scores =
     filter (\<lambda>s. seg_scores ! nat s \<ge> seg_confidence_threshold cfg)
       (map int [0 ..< length seg_scores])"

definition group_segs ::
  "(int list \<Rightarrow> int list) \<Rightarrow> config \<Rightarrow> real list \<Rightarrow> real list \<Rightarrow> (error + int list list) option" where
  "group_segs dict_order cfg seg_scores link_scores =
     (let mask_tbl = map (\<lambda>s. (s, - 1)) (valid_segs cfg seg_scores);
          seg_indexes = map int [0 ..< length seg_scores]
      in try_err (reshape_labels_by_layer (feat_shapes cfg) seg_indexes) (\<lambda>layer_seg_indexes.
         try_err (reshape_link_gt_by_layer (feat_shapes cfg) link_scores)
           (\<lambda>(layer_inter_link_scores, layer_cross_link_scores).
         bind_run (for_each_run (\<lambda>layer_index.
               for_each_run (\<lambda>y.
                 for_each_run (group_cell cfg seg_scores layer_seg_indexes
                     layer_inter_link_scores layer_cross_link_scores layer_index y)
                   [0 ..< snd (feat_shapes cfg ! layer_index)])
                 [0 ..< fst (feat_shapes cfg ! layer_index)])
             [0 ..< length (feat_shapes cfg)] mask_tbl)
           (to_list dict_order))))"

section \<open>From scores to bounding boxes\<close>

text \<open>
  \<open>seglink_to_bbox\<close>: the rows \<open>segs[idx, :]\<close> of every group are collected and passed
  to \<open>combine_segs\<close>; the first exception ends the run.
\<close>

definition seglink_to_bbox ::
  "(int list \<Rightarrow> int list) \<Rightarrow> config \<Rightarrow> real list \<Rightarrow> real list \<Rightarrow> rect list
     \<Rightarrow> (error + final_box list) option" where
  "seglink_to_bbox dict_order cfg seg_scores link_scores segs =
     bind_run (group_segs dict_order cfg seg_scores link_scores) (\<lambda>seg_groups.
       for_each_run (\<lambda>group bboxes.
           try_err (for_each (\<lambda>idx rows. bind_err (vec_get segs idx) (\<lambda>row. Inr (rows @ [row])))
                      group []) (\<lambda>group.
           try_err (combine_segs group) (\<lambda>bbox. Some (Inr (bboxes @ [bbox])))))
         seg_groups [])"

section \<open>The encoder\<close>

text \<open>\<open>get_all_seglink_gt\<close>, with \<open>normalize_flag\<close> for the argument \<open>normalize\<close>;
  the last lines only cast the arrays, but for \<open>labels >= 0\<close>, which turns each label
  into 1 or 0. (The normalisation divides by the sides of the image; an image side of 0
  is outside the model.)\<close>

definition get_all_seglink_gt ::
  "config \<Rightarrow> 'c collaborators \<Rightarrow> row4 list \<Rightarrow> row4 list \<Rightarrow> bool
     \<Rightarrow> error + (int list \<times> rect list \<times> int list)" where
  "get_all_seglink_gt cfg ext xs ys normalize_flag =
     (let anchors = default_anchors cfg in
      bind_err (match_anchor_to_text_boxes ext (max_height_ratio cfg) anchors xs ys)
        (\<lambda>(labels, seg_gt).
      bind_err (cal_link_gt (feat_shapes cfg) labels) (\<lambda>link_gt.
        let seg_gt =
              (if normalize_flag then
                 (case image_shape cfg of (h_I, w_I) \<Rightarrow>
                    map (\<lambda>(cx, cy, w, h, theta). (cx / w_I, cy / h_I, w / w_I, h / h_I, theta / 1))
                      seg_gt)
               else seg_gt);
            labels = map (\<lambda>l. if l \<ge> 0 then 1 else 0) labels
        in Inr (labels, seg_gt, link_gt))))"

subsection \<open>What the matcher is measured against\<close>

text \<open>
  The two tests of the matcher for one anchor and one polygon (the centre of the anchor
  lies in the contour; the height ratio is at most the maximum), and the polygons, in
  iteration order, for which an anchor passes both.
\<close>

definition passes_both_tests :: "'c collaborators \<Rightarrow> real \<Rightarrow> anchor \<Rightarrow> 'c \<Rightarrow> rect \<Rightarrow> bool" where
  "passes_both_tests ext mhr anchor cnt rect =
     (case anchor of (acx, acy, aw, ah) \<Rightarrow>
        is_in_contour ext (acx, acy) cnt
        \<and> height_ratio_matched aw (min (rect_w rect) (rect_h rect)) mhr)"

definition matching_polygons :: "'c collaborators \<Rightarrow> real \<Rightarrow> anchor \<Rightarrow> 'c list \<Rightarrow> rect list \<Rightarrow> nat list" where
  "matching_polygons ext mhr anchor cnts rects =
     filter (\<lambda>bbox_idx. passes_both_tests ext mhr anchor (cnts ! bbox_idx) (rects ! bbox_idx))
       [0 ..< length rects]"

text \<open>
  A collaborator for axis-parallel boxes given by their corners in the order top-left,
  top-right, bottom-right, bottom-left: the contour is the list of corners, a point is
  inside when it lies between the first and the third corner, and the enclosing
  rectangle is reported with angle -90 and its two sides exchanged. It instantiates the
  theorems at concrete inputs.
\<close>

definition box_collaborators :: "(point list) collaborators" where
  "box_collaborators =
     \<lparr> points_to_contour = (\<lambda>points. points),
       is_in_contour = (\<lambda>p cnt. fst (cnt ! 0) \<le> fst p \<and> fst p \<le> fst (cnt ! 2)
                            \<and> snd (cnt ! 0) \<le> snd p \<and> snd p \<le> snd (cnt ! 2)),
       minAreaRect = (\<lambda>cnt. (((fst (cnt ! 0) + fst (cnt ! 2)) / 2, (snd (cnt ! 0) + snd (cnt ! 2)) / 2),
                             (snd (cnt ! 2) - snd (cnt ! 0), fst (cnt ! 2) - fst (cnt ! 0)), - 90)) \<rparr>"

subsection \<open>What the link ground truth is measured against\<close>

text \<open>
  The projected centres of a group, in the words of the specification. The fitted line
  \<open>y = k * x + b\<close> has the slope \<open>k = tan bar_theta\<close>, with \<open>bar_theta\<close> the mean of the
  thetas, and the intercept \<open>b = mean (cy - k * cx)\<close>. A centre \<open>(cx, cy)\<close> is shifted
  by \<open>-b\<close> and projected on the direction \<open>(1, k)\<close> of the line, which gives the length
  \<open>proj = (1 * cx + k * (cy - b)) / sqrt (1^2 + k^2)\<close>, and the projected point is
  \<open>(proj * cos bar_theta, proj * sin bar_theta)\<close>. \<open>projected_distance\<close> is the
  Euclidean distance of the projected centres of two segments of the group.
\<close>

definition projected_centre :: "rect list \<Rightarrow> rect \<Rightarrow> point" where
  "projected_centre segs s =
     (let bar_theta = mean_list (map rect_theta segs);
          k = tan_deg bar_theta;
          b = mean_list (map (\<lambda>s. rect_cy s - k * rect_cx s) segs);
          proj = (1 * rect_cx s + k * (rect_cy s - b)) / sqrt (1\<^sup>2 + k\<^sup>2)
      in (proj * cos_deg bar_theta, proj * sin_deg bar_theta))"

definition projected_distance :: "rect list \<Rightarrow> rect \<Rightarrow> rect \<Rightarrow> real" where
  "projected_distance segs s t =
     (case projected_centre segs s of (x1, y1) \<Rightarrow>
      case projected_centre segs t of (x2, y2) \<Rightarrow>
        sqrt ((x1 - x2)\<^sup>2 + (y1 - y2)\<^sup>2))"

text \<open>
  The number of anchors, the position of the anchor \<open>(l, y, x)\<close> (layer, row, column)
  in the flat label array, and its label. The layers follow each other, each in
  row-major order.
\<close>

definition num_anchors :: "(nat \<times> nat) list \<Rightarrow> nat" where
  "num_anchors shapes = sum_list (map (\<lambda>s. fst s * snd s) shapes)"

definition label_offset :: "(nat \<times> nat) list \<Rightarrow> nat \<Rightarrow> nat" where
  "label_offset shapes l = sum_list (map (\<lambda>s. fst s * snd s) (take l shapes))"

definition label_at :: "(nat \<times> nat) list \<Rightarrow> 'a list \<Rightarrow> nat \<Rightarrow> nat \<Rightarrow> nat \<Rightarrow> 'a" where
  "label_at shapes labels l y x = labels ! (label_offset shapes l + y * snd (shapes ! l) + x)"

text \<open>
  The position of a link slot in the flat link array, as \<open>reshape_link_gt_by_layer\<close>
  cuts it: the slots \<open>n < 8\<close> of the cells of all layers come first, then the slots
  \<open>n < 4\<close> of the cells of the layers from the second on.
\<close>

definition inter_slot :: "(nat \<times> nat) list \<Rightarrow> nat \<Rightarrow> nat \<Rightarrow> nat \<Rightarrow> nat \<Rightarrow> nat" where
  "inter_slot shapes l y x n =
     sum_list (map (\<lambda>s. fst s * snd s * 8) (take l shapes))
       + (y * snd (shapes ! l) + x) * 8 + n"

definition cross_slot :: "(nat \<times> nat) list \<Rightarrow> nat \<Rightarrow> nat \<Rightarrow> nat \<Rightarrow> nat \<Rightarrow> nat" where
  "cross_slot shapes l y x n =
     sum_list (map (\<lambda>s. fst s * snd s * 8) shapes)
       + sum_list (map (\<lambda>s. fst s * snd s * 4) (take (l - 1) (tl shapes)))
       + (y * snd (shapes ! l) + x) * 4 + n"

definition num_links :: "(nat \<times> nat) list \<Rightarrow> nat" where
  "num_links shapes =
     sum_list (map (\<lambda>s. fst s * snd s * 8) shapes)
       + sum_list (map (\<lambda>s. fst s * snd s * 4) (tl shapes))"

text \<open>
  The endpoints of the link slots, in the words of the specification. Slot \<open>n < 8\<close> of
  a cell leads to one of its eight grid-adjacent cells in the same layer: the slots run
  through the row above (left, middle, right), the cell to the left, the cell to the
  right, and the row below (left, middle, right); \<open>inter_offset n\<close> is the step
  \<open>(dx, dy)\<close> in column and row. Slot \<open>n < 4\<close> of a cell \<open>(y, x)\<close> of a layer after
  the first leads to one of the four cells \<open>(2y, 2x)\<close>, \<open>(2y, 2x + 1)\<close>,
  \<open>(2y + 1, 2x)\<close>, \<open>(2y + 1, 2x + 1)\<close> of the previous layer, in this order: row
  \<open>2y + n div 2\<close>, column \<open>2x + n mod 2\<close>.

  \<open>cells_linked\<close>: the cell \<open>(l, y, x)\<close> and the cell in row \<open>ny\<close> and column \<open>nx\<close> of
  layer \<open>l'\<close> are linked when the second lies in the grid of its layer and both carry
  the same non-negative label.
\<close>

definition inter_offset :: "nat \<Rightarrow> int \<times> int" where
  "inter_offset n =
     (if n = 0 then (- 1, - 1) else if n = 1 then (0, - 1) else if n = 2 then (1, - 1)
      else if n = 3 then (- 1, 0) else if n = 4 then (1, 0)
      else if n = 5 then (- 1, 1) else if n = 6 then (0, 1) else (1, 1))"

definition cells_linked ::
  "(nat \<times> nat) list \<Rightarrow> int list \<Rightarrow> nat \<Rightarrow> nat \<Rightarrow> nat \<Rightarrow> nat \<Rightarrow> int \<Rightarrow> int \<Rightarrow> bool" where
  "cells_linked shapes labels l y x l' ny nx =
     (0 \<le> ny \<and> ny < int (fst (shapes ! l')) \<and> 0 \<le> nx \<and> nx < int (snd (shapes ! l'))
      \<and> 0 \<le> label_at shapes labels l y x
      \<and> label_at shapes labels l' (nat ny) (nat nx) = label_at shapes labels l y x)"

text \<open>For the proofs: \<open>arr'\<close> is \<open>arr\<close> with a 1 written at every index that satisfies
  \<open>P\<close>; and a neighbour that lies in its grid and carries the label \<open>m\<close>.\<close>

definition marks :: "(nat \<Rightarrow> bool) \<Rightarrow> int list \<Rightarrow> int list \<Rightarrow> bool" where
  "marks P arr arr' =
     (length arr' = length arr \<and> (\<forall>i < length arr. arr' ! i = (if P i then 1 else arr ! i)))"

definition nb_linked :: "nat \<Rightarrow> nat \<Rightarrow> int list \<Rightarrow> int \<Rightarrow> int \<times> int \<Rightarrow> bool" where
  "nb_linked nh nw n_labels m nb =
     (case nb of (nx, ny) \<Rightarrow>
        is_valid_cord nx ny (int nw) (int nh) \<and> m = n_labels ! (nat ny * nw + nat nx))"

text \<open>The same conditions on the layers' grids, as the loops of \<open>cal_link_gt\<close> see
  them.\<close>

definition grid_inter_linked :: "(nat \<times> nat) list \<Rightarrow> int list list \<Rightarrow> nat \<Rightarrow> nat \<Rightarrow> nat \<Rightarrow> nat \<Rightarrow> bool" where
  "grid_inter_linked shapes layer_labels l y x n =
     (let h = fst (shapes ! l); w = snd (shapes ! l); m = layer_labels ! l ! (y * w + x)
      in m \<ge> 0 \<and> nb_linked h w (layer_labels ! l) m (get_inter_layer_neighbours (int x) (int y) ! n))"

definition grid_cross_linked :: "(nat \<times> nat) list \<Rightarrow> int list list \<Rightarrow> nat \<Rightarrow> nat \<Rightarrow> nat \<Rightarrow> nat \<Rightarrow> bool" where
  "grid_cross_linked shapes layer_labels l y x n =
     (let w = snd (shapes ! l); m = layer_labels ! l ! (y * w + x);
          ph = fst (shapes ! (l - 1)); pw = snd (shapes ! (l - 1))
      in 0 < l \<and> m \<ge> 0
         \<and> nb_linked ph pw (layer_labels ! (l - 1)) m (get_cross_layer_neighbours (int x) (int y) ! n))"

text \<open>A configuration with two layers of one cell each, for concrete instances.\<close>

definition example_config :: config where
  "example_config =
     \<lparr> feat_shapes = [(1, 1), (1, 1)],
       max_height_ratio = 3 / 2,
       seg_confidence_threshold = 1 / 2,
       link_confidence_threshold = 1 / 2,
       default_anchors = [(5, 5, 10, 10), (100, 100, 10, 10)],
       image_shape = (200, 200) \<rparr>"

subsection \<open>What the grouping is measured against\<close>

text \<open>
  The flat index of the anchor \<open>(l, y, x)\<close>, and the links that qualify: for every
  layer and every cell whose score reaches the segment threshold, the pairs (cell,
  neighbour) over the eight neighbours in the layer and, from the second layer on, the
  four neighbours in the previous layer, where the neighbour lies in its grid, its score
  reaches the segment threshold and the score of the link reaches the link threshold.
\<close>

definition anchor_index :: "(nat \<times> nat) list \<Rightarrow> nat \<Rightarrow> nat \<Rightarrow> nat \<Rightarrow> nat" where
  "anchor_index shapes l y x = label_offset shapes l + y * snd (shapes ! l) + x"

definition inter_links :: "config \<Rightarrow> real list \<Rightarrow> real list \<Rightarrow> nat \<Rightarrow> nat \<Rightarrow> nat \<Rightarrow> (nat \<times> nat) list" where
  "inter_links cfg seg_scores link_scores l y x =
     (let shapes = feat_shapes cfg; h = fst (shapes ! l); w = snd (shapes ! l)
      in map (\<lambda>(n, nx, ny). (anchor_index shapes l y x, anchor_index shapes l (nat ny) (nat nx)))
           (filter (\<lambda>(n, nx, ny). is_valid_cord nx ny (int w) (int h)
                \<and> seg_scores ! anchor_index shapes l (nat ny) (nat nx) \<ge> seg_confidence_threshold cfg
                \<and> link_scores ! inter_slot shapes l y x n \<ge> link_confidence_threshold cfg)
              (enumerate 0 (get_inter_layer_neighbours (int x) (int y)))))"

definition cross_links :: "config \<Rightarrow> real list \<Rightarrow> real list \<Rightarrow> nat \<Rightarrow> nat \<Rightarrow> nat \<Rightarrow> (nat \<times> nat) list" where
  "cross_links cfg seg_scores link_scores l y x =
     (let shapes = feat_shapes cfg; ph = fst (shapes ! (l - 1)); pw = snd (shapes ! (l - 1))
      in map (\<lambda>(n, nx, ny). (anchor_index shapes l y x, anchor_index shapes (l - 1) (nat ny) (nat nx)))
           (filter (\<lambda>(n, nx, ny). is_valid_cord nx ny (int pw) (int ph)
                \<and> seg_scores ! anchor_index shapes (l - 1) (nat ny) (nat nx) \<ge> seg_confidence_threshold cfg
                \<and> link_scores ! cross_slot shapes l y x n \<ge> link_confidence_threshold cfg)
              (enumerate 0 (get_cross_layer_neighbours (int x) (int y)))))"

definition cell_links :: "config \<Rightarrow> real list \<Rightarrow> real list \<Rightarrow> nat \<Rightarrow> nat \<Rightarrow> nat \<Rightarrow> (nat \<times> nat) list" where
  "cell_links cfg seg_scores link_scores l y x =
     (if seg_scores ! anchor_index (feat_shapes cfg) l y x \<ge> seg_confidence_threshold cfg
      then inter_links cfg seg_scores link_scores l y x
           @ (if 0 < l then cross_links cfg seg_scores link_scores l y x else [])
      else [])"

definition qualifying_links :: "config \<Rightarrow> real list \<Rightarrow> real list \<Rightarrow> (nat \<times> nat) list" where
  "qualifying_links cfg seg_scores link_scores =
     concat (map (\<lambda>l.
       concat (map (\<lambda>y.
         concat (map (\<lambda>x. cell_links cfg seg_scores link_scores l y x)
           [0 ..< snd (feat_shapes cfg ! l)]))
         [0 ..< fst (feat_shapes cfg ! l)]))
       [0 ..< length (feat_shapes cfg)])"

text \<open>
  For the proofs: the qualifying links as pairs of keys of the dictionary \<open>mask\<close>, and
  the invariant of \<open>mask\<close> over the loops of \<open>group_segs\<close>. Its keys are the list \<open>V\<close> of
  valid segments, every parent is \<open>-1\<close> or a key that is connected to its child by
  links of \<open>E\<close>, and following parents ends.
\<close>

definition link_edges :: "config \<Rightarrow> real list \<Rightarrow> real list \<Rightarrow> (int \<times> int) set" where
  "link_edges cfg seg_scores link_scores =
     (\<lambda>(a, b). (int a, int b)) ` set (qualifying_links cfg seg_scores link_scores)"

definition uf_inv :: "int list \<Rightarrow> (int \<times> int) set \<Rightarrow> mask \<Rightarrow> bool" where
  "uf_inv V E m =
     (map fst m = V \<and> distinct V \<and> (\<forall>k \<in> set V. 0 \<le> k)
      \<and> (\<forall>k p. map_of m k = Some p \<longrightarrow> p = - 1 \<or> (p \<in> set V \<and> (k, p) \<in> (E \<union> E\<inverse>)\<^sup>*))
      \<and> wf {(p, k). map_of m k = Some p \<and> p \<noteq> - 1})"

text \<open>A configuration with a layer of two cells and a layer of one cell.\<close>

definition grouping_config :: config where
  "grouping_config = example_config\<lparr>feat_shapes := [(1, 2), (1, 1)]\<rparr>"

section \<open>Theorems\<close>

text \<open>
  Claim C9. Cropping a rectangle to an anchor recomputes \<open>cx\<close> and \<open>w\<close> from the
  intersection of the two horizontal extents and leaves \<open>cy\<close>, \<open>h\<close> and \<open>theta\<close> as
  they were; each of the two rotation steps leaves \<open>w\<close>, \<open>h\<close> and \<open>theta\<close> as they
  were (it moves the centre only).
\<close>

theorem crop_and_rotate_frame:
  fixes cx cy w h theta acx acy aw ah :: real and center :: point
  defines "bbox \<equiv> (cx, cy, w, h, theta)"
  defines "anchor \<equiv> (acx, acy, aw, ah)"
  defines "xmin \<equiv> max (cx - w / 2) (acx - aw / 2)"
  defines "xmax \<equiv> min (cx + w / 2) (acx + aw / 2)"
  shows "crop_horizontal_bbox_using_anchor bbox anchor
           = ((xmin + xmax) / 2, cy, xmax - xmin, h, theta)
       \<and> rect_w (rotate_oriented_bbox_to_horizontal center bbox) = w
       \<and> rect_h (rotate_oriented_bbox_to_horizontal center bbox) = h
       \<and> rect_theta (rotate_oriented_bbox_to_horizontal center bbox) = theta
       \<and> rect_w (rotate_horizontal_bbox_to_oriented center bbox) = w
       \<and> rect_h (rotate_horizontal_bbox_to_oriented center bbox) = h
       \<and> rect_theta (rotate_horizontal_bbox_to_oriented center bbox) = theta"
  by (simp add: bbox_def anchor_def xmin_def xmax_def crop_horizontal_bbox_using_anchor_def
      rotate_oriented_bbox_to_horizontal_def rotate_horizontal_bbox_to_oriented_def
      rect_w_def rect_h_def rect_theta_def Let_def split: prod.splits)

subsection \<open>The box synthesizer\<close>

lemma sqrt_400: "sqrt 400 = 20"
  using real_sqrt_abs2 [of 20] by simp

lemmas combine_segs_eval =
  combine_segs_def max_dist_search_def seg_proj_points_def seg_bias_def seg_bar_theta_def
  mean_list_def rect_cx_def rect_cy_def rect_w_def rect_h_def rect_theta_def
  tan_deg_def cos_deg_def sin_deg_def max_dist_step_def point_dist_def upt_rec Let_def

lemma fold_nested_pairs:
  "fold (\<lambda>i st. fold (f i) (g i) st) xs s
     = fold (\<lambda>(i, j). f i j) (concat (map (\<lambda>i. map (Pair i) (g i)) xs)) s"
proof (induction xs arbitrary: s)
  case Nil
  show ?case by simp
next
  case (Cons x xs)
  have "fold (\<lambda>(i, j). f i j) (map (Pair x) (g x)) s = fold (f x) (g x) s"
    by (simp add: fold_map comp_def)
  then show ?case using Cons.IH by simp
qed

lemma set_index_pairs:
  "set (concat (map (\<lambda>i. map (Pair i) [i + 1 ..< n]) [0 ..< n])) = {(i, j). i < j \<and> j < n}"
  by (auto simp: image_iff)

lemma max_dist_fold:
  assumes "fold (\<lambda>(i, j). max_dist_step pts i j) ps (md, i1, i2) = (md', i1', i2')"
  shows "md \<le> md'
       \<and> (\<forall>(i, j) \<in> set ps. point_dist (pts ! i) (pts ! j) \<le> md')
       \<and> ((md', i1', i2') = (md, i1, i2)
           \<or> (\<exists>(i, j) \<in> set ps. md' = point_dist (pts ! i) (pts ! j) \<and> i1' = int i \<and> i2' = int j))"
  using assms
proof (induction ps arbitrary: md i1 i2)
  case Nil
  then show ?case by simp
next
  case (Cons p ps)
  obtain i j where p: "p = (i, j)" by (cases p)
  let ?d = "point_dist (pts ! i) (pts ! j)"
  have step: "max_dist_step pts i j (md, i1, i2) = (if ?d > md then (?d, int i, int j) else (md, i1, i2))"
    by (simp add: max_dist_step_def)
  show ?case
  proof (cases "?d > md")
    case True
    with Cons.prems p have "fold (\<lambda>(i, j). max_dist_step pts i j) ps (?d, int i, int j) = (md', i1', i2')"
      by (simp add: step)
    from Cons.IH [OF this] True p show ?thesis by auto
  next
    case False
    with Cons.prems p have "fold (\<lambda>(i, j). max_dist_step pts i j) ps (md, i1, i2) = (md', i1', i2')"
      by (simp add: step)
    from Cons.IH [OF this] False p show ?thesis by auto
  qed
qed

lemma max_dist_search_cases:
  assumes "max_dist_search pts = (md, i1, i2)"
  shows "0 \<le> md
       \<and> (\<forall>i j. i < j \<and> j < length pts \<longrightarrow> point_dist (pts ! i) (pts ! j) \<le> md)
       \<and> ((md, i1, i2) = (0, - 1, - 1)
           \<or> (\<exists>i j. i < j \<and> j < length pts \<and> md = point_dist (pts ! i) (pts ! j)
                 \<and> i1 = int i \<and> i2 = int j))"
proof -
  let ?ps = "concat (map (\<lambda>i. map (Pair i) [i + 1 ..< length pts]) [0 ..< length pts])"
  have "fold (\<lambda>(i, j). max_dist_step pts i j) ?ps (0, - 1, - 1) = (md, i1, i2)"
    using assms unfolding max_dist_search_def fold_nested_pairs .
  from max_dist_fold [OF this] show ?thesis
    unfolding set_index_pairs by auto
qed

lemma point_dist_pos: "p \<noteq> q \<Longrightarrow> 0 < point_dist p q"
  by (cases p, cases q) (auto simp: point_dist_def sum_power2_gt_zero_iff)

lemma point_dist_sym: "point_dist p q = point_dist q p"
  by (simp add: point_dist_def power2_commute)


text \<open>
  Claim C1. A group of exactly one segment: the pair search runs over no pair, so
  \<open>idx1\<close> and \<open>idx2\<close> keep their initial value \<open>-1\<close> and the assertion
  \<open>idx1 >= 0 and idx2 >= 0\<close> fails. The function raises instead of returning the
  segment itself.
\<close>

theorem combine_segs_single_raises: "combine_segs [s] = Inl AssertionError"
  by (simp add: combine_segs_def max_dist_search_def seg_proj_points_def Let_def)

text \<open>
  Claim C2, as stated: for the segments \<open>(0,0,10,10,0)\<close> and \<open>(20,0,10,10,0)\<close> the
  result is a box with \<open>cx = 10\<close>, \<open>cy = 0\<close>, \<open>w = 20\<close>, \<open>h = 10\<close>, \<open>theta = 0\<close>.
  This is false: the width is the distance of the two centres plus half of each width.
\<close>

theorem combine_segs_two_counterexample:
  "\<not> (case combine_segs [(0, 0, 10, 10, 0), (20, 0, 10, 10, 0)] of
        Inl e \<Rightarrow> False
      | Inr box \<Rightarrow> box_cx box = 10 \<and> box_cy box = 0 \<and> box_w box = 20
          \<and> box_h box = 10 \<and> box_theta box = 0)"
  by (simp add: combine_segs_eval sqrt_400 box_w_def)

text \<open>
  Claim C2, amended: for the segments \<open>(0,0,10,10,0)\<close> and \<open>(20,0,10,10,0)\<close> the
  result is the box \<open>cx = 10\<close>, \<open>cy = 0\<close>, \<open>w = 30\<close>, \<open>h = 10\<close>, \<open>theta = 0\<close>, with
  line offset \<open>0\<close>.
\<close>

theorem combine_segs_two:
  "combine_segs [(0, 0, 10, 10, 0), (20, 0, 10, 10, 0)] = Inr (10, 0, 30, 10, 0, 0)"
  by (simp add: combine_segs_eval sqrt_400)

lemma seg_proj_points_nth:
  assumes "i < length segs"
  shows "seg_proj_points segs ! i = projected_centre segs (segs ! i)"
  using assms
  by (simp add: seg_proj_points_def projected_centre_def seg_bias_def seg_bar_theta_def Let_def)

lemma point_dist_projected:
  assumes "i < length segs" and "j < length segs"
  shows "point_dist (seg_proj_points segs ! i) (seg_proj_points segs ! j)
     = projected_distance segs (segs ! i) (segs ! j)"
  using assms
  by (simp add: seg_proj_points_nth projected_distance_def point_dist_def split: prod.splits)

text \<open>
  The projected distance is the distance, along a line of slope \<open>k\<close>, of the feet of
  the perpendiculars from the two centres: \<open>|dx + k * dy| / sqrt (1 + k^2)\<close>. It does
  not depend on the intercept.
\<close>

lemma projected_distance_on_line:
  fixes segs :: "rect list"
  defines "k \<equiv> tan_deg (mean_list (map rect_theta segs))"
  shows "projected_distance segs s t
     = \<bar>(rect_cx s - rect_cx t) + k * (rect_cy s - rect_cy t)\<bar> / sqrt (1 + k\<^sup>2)"
proof -
  define theta where "theta = mean_list (map rect_theta segs)"
  define b where "b = mean_list (map (\<lambda>s. rect_cy s - k * rect_cx s) segs)"
  define r where "r = sqrt (1 + k\<^sup>2)"
  define p where "p = (rect_cx s + k * (rect_cy s - b)) / r"
  define q where "q = (rect_cx t + k * (rect_cy t - b)) / r"
  have r: "0 < r" unfolding r_def by (simp add: add_pos_nonneg)
  have cs: "(cos_deg theta)\<^sup>2 + (sin_deg theta)\<^sup>2 = 1"
    by (simp add: cos_deg_def sin_deg_def)
  have "projected_distance segs s t
      = sqrt ((p * cos_deg theta - q * cos_deg theta)\<^sup>2 + (p * sin_deg theta - q * sin_deg theta)\<^sup>2)"
    by (simp add: projected_distance_def projected_centre_def Let_def p_def q_def r_def b_def
        theta_def k_def)
  also have "(p * cos_deg theta - q * cos_deg theta)\<^sup>2 + (p * sin_deg theta - q * sin_deg theta)\<^sup>2
      = (p - q)\<^sup>2 * ((cos_deg theta)\<^sup>2 + (sin_deg theta)\<^sup>2)"
    by (simp add: algebra_simps power2_eq_square)
  also have "\<dots> = (p - q)\<^sup>2" by (simp add: cs)
  also have "sqrt ((p - q)\<^sup>2) = \<bar>p - q\<bar>" by simp
  also have "p - q = ((rect_cx s - rect_cx t) + k * (rect_cy s - rect_cy t)) / r"
    by (simp add: p_def q_def diff_divide_distrib [symmetric] algebra_simps)
  also have "\<bar>((rect_cx s - rect_cx t) + k * (rect_cy s - rect_cy t)) / r\<bar>
      = \<bar>(rect_cx s - rect_cx t) + k * (rect_cy s - rect_cy t)\<bar> / r"
    using r by simp
  finally show ?thesis by (simp add: r_def)
qed

text \<open>
  Claim C7. For a group of two or more segments whose mean theta is no odd multiple of
  90 degrees and whose projected centres are not all the same point, \<open>combine_segs\<close>
  returns a box built from a pair \<open>i < j\<close> of segments whose projected centres are
  farthest apart: the centre is the midpoint of the two original centres, the width is
  that largest projected distance plus half the sum of the two widths, the height is the
  mean height of the group, theta is the mean theta, and the sixth field is the intercept
  \<open>mean (cy - tan theta_mean * cx)\<close>.
\<close>

theorem combine_segs_farthest_pair:
  assumes "2 \<le> length segs"
    and "cos_deg (mean_list (map rect_theta segs)) \<noteq> 0"
    and "\<exists>i < length segs. \<exists>j < length segs.
           projected_centre segs (segs ! i) \<noteq> projected_centre segs (segs ! j)"
  shows "\<exists>i j. i < j \<and> j < length segs
     \<and> (\<forall>i' j'. i' < j' \<and> j' < length segs \<longrightarrow>
           projected_distance segs (segs ! i') (segs ! j')
             \<le> projected_distance segs (segs ! i) (segs ! j))
     \<and> combine_segs segs = Inr
          ((rect_cx (segs ! i) + rect_cx (segs ! j)) / 2,
           (rect_cy (segs ! i) + rect_cy (segs ! j)) / 2,
           projected_distance segs (segs ! i) (segs ! j)
             + (rect_w (segs ! i) + rect_w (segs ! j)) / 2,
           mean_list (map rect_h segs),
           mean_list (map rect_theta segs),
           mean_list (map (\<lambda>s. rect_cy s - tan_deg (mean_list (map rect_theta segs)) * rect_cx s) segs))"
proof -
  let ?pts = "seg_proj_points segs"
  have len: "length ?pts = length segs"
    by (simp add: seg_proj_points_def Let_def)
  obtain md i1 i2 where res: "max_dist_search ?pts = (md, i1, i2)"
    by (cases "max_dist_search ?pts") auto
  note facts = max_dist_search_cases [OF res, unfolded len]
  from assms(3) obtain a b where ab: "a < length segs" "b < length segs" "?pts ! a \<noteq> ?pts ! b"
    by (auto simp: seg_proj_points_nth)
  then have "a \<noteq> b" by auto
  have "\<exists>i j. i < j \<and> j < length segs \<and> 0 < point_dist (?pts ! i) (?pts ! j)"
  proof (cases "a < b")
    case True
    with ab point_dist_pos [of "?pts ! a" "?pts ! b"] show ?thesis by blast
  next
    case False
    with \<open>a \<noteq> b\<close> have "b < a" by simp
    moreover have "0 < point_dist (?pts ! b) (?pts ! a)"
      using ab(3) point_dist_pos [of "?pts ! b" "?pts ! a"] by auto
    ultimately show ?thesis using ab(1) by blast
  qed
  then obtain i0 j0 where "i0 < j0" "j0 < length segs" "0 < point_dist (?pts ! i0) (?pts ! j0)"
    by blast
  moreover from facts have "\<forall>i j. i < j \<and> j < length segs \<longrightarrow> point_dist (?pts ! i) (?pts ! j) \<le> md"
    by blast
  ultimately have "point_dist (?pts ! i0) (?pts ! j0) \<le> md" by blast
  with \<open>0 < point_dist (?pts ! i0) (?pts ! j0)\<close> have "0 < md" by simp
  with facts have "\<exists>i j. i < j \<and> j < length segs \<and> md = point_dist (?pts ! i) (?pts ! j)
                 \<and> i1 = int i \<and> i2 = int j" by simp
  then obtain i j where ij: "i < j" "j < length segs" "md = point_dist (?pts ! i) (?pts ! j)"
      "i1 = int i" "i2 = int j"
    by blast
  from ij have iL: "i < length segs" by simp
  have md: "md = projected_distance segs (segs ! i) (segs ! j)"
    using ij(3) point_dist_projected [OF iL ij(2)] by simp
  have max: "projected_distance segs (segs ! i') (segs ! j')
      \<le> projected_distance segs (segs ! i) (segs ! j)" if "i' < j'" "j' < length segs" for i' j'
  proof -
    from that have "point_dist (?pts ! i') (?pts ! j') \<le> md" using facts by blast
    moreover from that have "i' < length segs" by simp
    ultimately show ?thesis using point_dist_projected [of i' segs j'] that(2) md by simp
  qed
  have ne: "segs \<noteq> []" using assms(1) by auto
  have "combine_segs segs = Inr
          ((rect_cx (segs ! i) + rect_cx (segs ! j)) / 2,
           (rect_cy (segs ! i) + rect_cy (segs ! j)) / 2,
           md + (rect_w (segs ! i) + rect_w (segs ! j)) / 2,
           mean_list (map rect_h segs),
           mean_list (map rect_theta segs),
           mean_list (map (\<lambda>s. rect_cy s - tan_deg (mean_list (map rect_theta segs)) * rect_cx s) segs))"
    using ne res ij(4,5) by (simp add: combine_segs_def Let_def seg_bias_def seg_bar_theta_def)
  with ij(1,2) max md show ?thesis by blast
qed

theorem combine_segs_farthest_pair_witness:
  "2 \<le> length [(0, 0, 4, 2, 0), (3, 4, 2, 4, 0) :: rect]
   \<and> cos_deg (mean_list (map rect_theta [(0, 0, 4, 2, 0), (3, 4, 2, 4, 0)])) \<noteq> 0
   \<and> projected_centre [(0, 0, 4, 2, 0), (3, 4, 2, 4, 0)] (0, 0, 4, 2, 0) = (0, 0)
   \<and> projected_centre [(0, 0, 4, 2, 0), (3, 4, 2, 4, 0)] (3, 4, 2, 4, 0) = (3, 0)
   \<and> projected_distance [(0, 0, 4, 2, 0), (3, 4, 2, 4, 0)] (0, 0, 4, 2, 0) (3, 4, 2, 4, 0) = 3
   \<and> combine_segs [(0, 0, 4, 2, 0), (3, 4, 2, 4, 0)] = Inr (3 / 2, 2, 6, 3, 0, 2)"
proof -
  let ?segs = "[(0, 0, 4, 2, 0), (3, 4, 2, 4, 0)] :: rect list"
  have c0: "projected_centre ?segs (0, 0, 4, 2, 0) = (0, 0)"
    by (simp add: projected_centre_def mean_list_def rect_cx_def rect_cy_def rect_theta_def
        tan_deg_def cos_deg_def sin_deg_def Let_def)
  have c1: "projected_centre ?segs (3, 4, 2, 4, 0) = (3, 0)"
    by (simp add: projected_centre_def mean_list_def rect_cx_def rect_cy_def rect_theta_def
        tan_deg_def cos_deg_def sin_deg_def Let_def)
  have d: "projected_distance ?segs (0, 0, 4, 2, 0) (3, 4, 2, 4, 0) = 3"
    by (simp add: projected_distance_def c0 c1)
  have h1: "2 \<le> length ?segs" by simp
  have h2: "cos_deg (mean_list (map rect_theta ?segs)) \<noteq> 0"
    by (simp add: mean_list_def rect_theta_def cos_deg_def)
  have h3: "\<exists>i < length ?segs. \<exists>j < length ?segs.
      projected_centre ?segs (?segs ! i) \<noteq> projected_centre ?segs (?segs ! j)"
  proof -
    have "(0::nat) < length ?segs" "(1::nat) < length ?segs"
      "projected_centre ?segs (?segs ! 0) \<noteq> projected_centre ?segs (?segs ! 1)"
      by (simp_all add: c0 c1)
    then show ?thesis by blast
  qed
  from combine_segs_farthest_pair [OF h1 h2 h3] obtain i j where ij: "i < j" "j < length ?segs"
    and res: "combine_segs ?segs = Inr
          ((rect_cx (?segs ! i) + rect_cx (?segs ! j)) / 2,
           (rect_cy (?segs ! i) + rect_cy (?segs ! j)) / 2,
           projected_distance ?segs (?segs ! i) (?segs ! j)
             + (rect_w (?segs ! i) + rect_w (?segs ! j)) / 2,
           mean_list (map rect_h ?segs),
           mean_list (map rect_theta ?segs),
           mean_list (map (\<lambda>s. rect_cy s - tan_deg (mean_list (map rect_theta ?segs)) * rect_cx s) ?segs))"
    by blast
  from ij have "i = 0" "j = 1" by auto
  with res have "combine_segs ?segs = Inr (3 / 2, 2, 6, 3, 0, 2)"
    by (simp add: d mean_list_def rect_cx_def rect_cy_def rect_w_def rect_h_def
        rect_theta_def tan_deg_def)
  with h1 h2 c0 c1 d show ?thesis by simp
qed

subsection \<open>The anchor matcher\<close>

lemma match_bbox_passes:
  "match_bbox ext mhr cnts rects anchor a j (labels, seg_gt) =
     (if passes_both_tests ext mhr anchor (cnts ! j) (rects ! j)
      then (labels[a := int j], seg_gt[a := cal_seg_gt_for_single_anchor anchor (rects ! j)])
      else (labels, seg_gt))"
  by (cases anchor) (simp add: match_bbox_def passes_both_tests_def Let_def)

lemma match_inner_loop:
  "fold (match_bbox ext mhr cnts rects anchor a) js (labels, seg_gt) =
     (let ms = filter (\<lambda>j. passes_both_tests ext mhr anchor (cnts ! j) (rects ! j)) js
      in if ms = [] then (labels, seg_gt)
         else (labels[a := int (last ms)],
               seg_gt[a := cal_seg_gt_for_single_anchor anchor (rects ! last ms)]))"
proof (induction js arbitrary: labels seg_gt)
  case Nil
  show ?case by simp
next
  case (Cons j js)
  show ?case
    by (simp add: match_bbox_passes Cons.IH Let_def)
qed

lemma match_outer_loop:
  assumes "fold (\<lambda>a st. fold (match_bbox ext mhr cnts rects (anchors ! a) a) [0 ..< length rects] st)
             as (labels, seg_gt) = (labels', seg_gt')"
  shows "length labels' = length labels \<and> length seg_gt' = length seg_gt
     \<and> (\<forall>k. k < length labels \<and> k < length seg_gt \<longrightarrow>
          (labels' ! k, seg_gt' ! k) =
            (let ms = matching_polygons ext mhr (anchors ! k) cnts rects
             in if k \<in> set as \<and> ms \<noteq> []
                then (int (last ms), cal_seg_gt_for_single_anchor (anchors ! k) (rects ! last ms))
                else (labels ! k, seg_gt ! k)))"
  using assms
proof (induction as arbitrary: labels seg_gt)
  case Nil
  then show ?case by (simp add: Let_def)
next
  case (Cons a as)
  let ?ms = "matching_polygons ext mhr (anchors ! a) cnts rects"
  define labels1 where "labels1 = (if ?ms = [] then labels else labels[a := int (last ?ms)])"
  define seg1 where "seg1 = (if ?ms = [] then seg_gt
      else seg_gt[a := cal_seg_gt_for_single_anchor (anchors ! a) (rects ! last ?ms)])"
  have inner: "fold (match_bbox ext mhr cnts rects (anchors ! a) a) [0 ..< length rects] (labels, seg_gt)
      = (labels1, seg1)"
    by (simp add: match_inner_loop matching_polygons_def labels1_def seg1_def Let_def)
  with Cons.prems have "fold (\<lambda>a st. fold (match_bbox ext mhr cnts rects (anchors ! a) a) [0 ..< length rects] st)
             as (labels1, seg1) = (labels', seg_gt')"
    by simp
  note IH = Cons.IH [OF this]
  have len1: "length labels1 = length labels" "length seg1 = length seg_gt"
    by (simp_all add: labels1_def seg1_def)
  show ?case
  proof (intro conjI allI impI)
    show "length labels' = length labels" using IH len1 by simp
    show "length seg_gt' = length seg_gt" using IH len1 by simp
  next
    fix k assume k: "k < length labels \<and> k < length seg_gt"
    with IH len1 have eq: "(labels' ! k, seg_gt' ! k) =
            (let ms = matching_polygons ext mhr (anchors ! k) cnts rects
             in if k \<in> set as \<and> ms \<noteq> []
                then (int (last ms), cal_seg_gt_for_single_anchor (anchors ! k) (rects ! last ms))
                else (labels1 ! k, seg1 ! k))"
      by simp
    show "(labels' ! k, seg_gt' ! k) =
            (let ms = matching_polygons ext mhr (anchors ! k) cnts rects
             in if k \<in> set (a # as) \<and> ms \<noteq> []
                then (int (last ms), cal_seg_gt_for_single_anchor (anchors ! k) (rects ! last ms))
                else (labels ! k, seg_gt ! k))"
    proof (cases "k = a")
      case True
      with k show ?thesis unfolding eq by (simp add: labels1_def seg1_def Let_def)
    next
      case False
      then show ?thesis unfolding eq by (simp add: labels1_def seg1_def Let_def)
    qed
  qed
qed

lemma polygon_rects_Inr:
  assumes "length xs = length ys"
  shows "\<exists>rects. polygon_rects ext xs ys = Inr rects \<and> length rects = length xs
     \<and> (\<forall>j < length xs. rects ! j = transform_cv_rect_row
          (case minAreaRect ext (polygon_contours ext xs ys ! j) of
             ((cx, cy), (w, h), theta) \<Rightarrow> (cx, cy, w, h, theta)))"
  using assms
  by (simp add: polygon_rects_def min_area_rect_def transform_cv_rect_def polygon_contours_def Let_def)

lemma match_anchor_result:
  assumes "match_anchor_to_text_boxes ext mhr anchors xs ys = Inr (labels, seg_gt)"
  shows "length xs = length ys \<and> length labels = length anchors \<and> length seg_gt = length anchors
     \<and> (\<exists>rects. polygon_rects ext xs ys = Inr rects \<and>
          (\<forall>i < length anchors.
             (labels ! i, seg_gt ! i) =
               (let ms = matching_polygons ext mhr (anchors ! i) (polygon_contours ext xs ys) rects
                in if ms \<noteq> []
                   then (int (last ms), cal_seg_gt_for_single_anchor (anchors ! i) (rects ! last ms))
                   else (- 1, (0, 0, 0, 0, 0)))))"
proof -
  from assms have len: "length xs = length ys"
    by (auto simp: match_anchor_to_text_boxes_def split: if_splits)
  from polygon_rects_Inr [OF len] obtain rects where
    rects: "polygon_rects ext xs ys = Inr rects" "length rects = length xs"
    by blast
  let ?labels0 = "replicate (length anchors) (- 1 :: int)"
  let ?seg0 = "replicate (length anchors) ((0, 0, 0, 0, 0) :: rect)"
  from assms len rects have fold_eq:
    "fold (\<lambda>a st. fold (match_bbox ext mhr (polygon_contours ext xs ys) rects (anchors ! a) a)
         [0 ..< length rects] st) [0 ..< length anchors] (?labels0, ?seg0) = (labels, seg_gt)"
    by (simp add: match_anchor_to_text_boxes_def Let_def)
  note out = match_outer_loop [OF fold_eq]
  have "\<forall>i < length anchors.
             (labels ! i, seg_gt ! i) =
               (let ms = matching_polygons ext mhr (anchors ! i) (polygon_contours ext xs ys) rects
                in if ms \<noteq> []
                   then (int (last ms), cal_seg_gt_for_single_anchor (anchors ! i) (rects ! last ms))
                   else (- 1, (0, 0, 0, 0, 0)))"
  proof (intro allI impI)
    fix i assume i: "i < length anchors"
    with out have "(labels ! i, seg_gt ! i) =
            (let ms = matching_polygons ext mhr (anchors ! i) (polygon_contours ext xs ys) rects
             in if i \<in> set [0 ..< length anchors] \<and> ms \<noteq> []
                then (int (last ms), cal_seg_gt_for_single_anchor (anchors ! i) (rects ! last ms))
                else (?labels0 ! i, ?seg0 ! i))"
      by simp
    with i show "(labels ! i, seg_gt ! i) =
               (let ms = matching_polygons ext mhr (anchors ! i) (polygon_contours ext xs ys) rects
                in if ms \<noteq> []
                   then (int (last ms), cal_seg_gt_for_single_anchor (anchors ! i) (rects ! last ms))
                   else (- 1, (0, 0, 0, 0, 0)))"
      by (simp add: Let_def)
  qed
  with len out rects show ?thesis by simp
qed

lemma match_anchor_returns:
  assumes "length xs = length ys"
  shows "\<exists>labels seg_gt. match_anchor_to_text_boxes ext mhr anchors xs ys = Inr (labels, seg_gt)"
proof -
  from polygon_rects_Inr [OF assms] obtain rects where
    rects: "polygon_rects ext xs ys = Inr rects" by blast
  obtain l s where "fold (\<lambda>anchor_idx st.
                          fold (match_bbox ext mhr (polygon_contours ext xs ys) rects (anchors ! anchor_idx) anchor_idx)
                            [0 ..< length xs] st)
                        [0 ..< length anchors] (replicate (length anchors) (- 1), replicate (length anchors) (0, 0, 0, 0, 0)) = (l, s)"
    by (meson surj_pair)
  with assms rects show ?thesis
    by (simp add: match_anchor_to_text_boxes_def Let_def)
qed

lemma cal_seg_gt_theta: "rect_theta (cal_seg_gt_for_single_anchor anchor rect) = rect_theta rect"
  by (cases anchor, cases rect)
    (simp add: cal_seg_gt_for_single_anchor_def rotate_oriented_bbox_to_horizontal_def
      rotate_horizontal_bbox_to_oriented_def crop_horizontal_bbox_using_anchor_def
      rect_theta_def Let_def split: prod.splits)

lemma transform_cv_rect_row_theta:
  assumes "- 90 \<le> theta" "theta \<le> 0"
  shows "- 45 \<le> rect_theta (transform_cv_rect_row (cx, cy, w, h, theta))
       \<and> rect_theta (transform_cv_rect_row (cx, cy, w, h, theta)) \<le> 45"
  using assms by (auto simp: transform_cv_rect_row_def rect_theta_def)

text \<open>
  Claim C4. When \<open>xs\<close> and \<open>ys\<close> have the same number of rows the matcher returns one
  label and one target for every anchor. For an anchor that passes both tests for one or
  more polygons, the label is the index of the last such polygon in iteration order and
  the target is the segment derived from that polygon's rectangle; an anchor that
  passes them for no polygon keeps the label -1 and the all-zero target.
\<close>

theorem last_matching_polygon_wins:
  assumes "length xs = length ys" and "i < length anchors"
  shows "\<exists>labels seg_gt rects.
      match_anchor_to_text_boxes ext mhr anchors xs ys = Inr (labels, seg_gt)
    \<and> polygon_rects ext xs ys = Inr rects
    \<and> length labels = length anchors \<and> length seg_gt = length anchors
    \<and> (let ms = matching_polygons ext mhr (anchors ! i) (polygon_contours ext xs ys) rects
       in (ms = [] \<longrightarrow> labels ! i = - 1 \<and> seg_gt ! i = (0, 0, 0, 0, 0))
        \<and> (ms \<noteq> [] \<longrightarrow> labels ! i = int (last ms)
              \<and> seg_gt ! i = cal_seg_gt_for_single_anchor (anchors ! i) (rects ! last ms)))"
proof -
  from match_anchor_returns [OF assms(1)] obtain labels seg_gt where
    res: "match_anchor_to_text_boxes ext mhr anchors xs ys = Inr (labels, seg_gt)"
    by blast
  from match_anchor_result [OF res] obtain rects where
    len: "length labels = length anchors" "length seg_gt = length anchors"
    and rects: "polygon_rects ext xs ys = Inr rects"
    and all: "\<forall>i < length anchors.
             (labels ! i, seg_gt ! i) =
               (let ms = matching_polygons ext mhr (anchors ! i) (polygon_contours ext xs ys) rects
                in if ms \<noteq> []
                   then (int (last ms), cal_seg_gt_for_single_anchor (anchors ! i) (rects ! last ms))
                   else (- 1, (0, 0, 0, 0, 0)))"
    by blast
  from all assms(2) have "(labels ! i, seg_gt ! i) =
               (let ms = matching_polygons ext mhr (anchors ! i) (polygon_contours ext xs ys) rects
                in if ms \<noteq> []
                   then (int (last ms), cal_seg_gt_for_single_anchor (anchors ! i) (rects ! last ms))
                   else (- 1, (0, 0, 0, 0, 0)))"
    by blast
  then have "let ms = matching_polygons ext mhr (anchors ! i) (polygon_contours ext xs ys) rects
       in (ms = [] \<longrightarrow> labels ! i = - 1 \<and> seg_gt ! i = (0, 0, 0, 0, 0))
        \<and> (ms \<noteq> [] \<longrightarrow> labels ! i = int (last ms)
              \<and> seg_gt ! i = cal_seg_gt_for_single_anchor (anchors ! i) (rects ! last ms))"
    by (simp add: Let_def split: if_splits)
  with res rects len show ?thesis by blast
qed

lemmas matcher_eval =
  match_anchor_to_text_boxes_def polygon_rects_def polygon_contours_def min_area_rect_def
  transform_cv_rect_def transform_cv_rect_row_def bbox_points_def box_collaborators_def
  match_bbox_def cal_seg_gt_for_single_anchor_def rotate_oriented_bbox_to_horizontal_def
  rotate_horizontal_bbox_to_oriented_def crop_horizontal_bbox_using_anchor_def
  getRotationMatrix2D_def dot23_def cos_deg_def sin_deg_def rect_w_def rect_h_def
  height_ratio_matched_def upt_rec Let_def

lemma match_example:
  "match_anchor_to_text_boxes box_collaborators (3 / 2) [(5, 5, 10, 10), (100, 100, 10, 10)]
     [(0, 10, 10, 0), (2, 12, 12, 2)] [(0, 0, 10, 10), (2, 2, 14, 14)]
   = Inr ([1, - 1], [(6, 8, 8, 12, 0), (0, 0, 0, 0, 0)])"
  by (simp add: matcher_eval)

lemma polygon_rects_example:
  "polygon_rects box_collaborators [(0, 10, 10, 0), (2, 12, 12, 2)] [(0, 0, 10, 10), (2, 2, 14, 14)]
   = Inr [(5, 5, 10, 10, 0), (7, 8, 10, 12, 0)]"
  by (simp add: matcher_eval)

theorem last_matching_polygon_wins_witness:
  "length [(0, 10, 10, 0), (2, 12, 12, 2) :: row4] = length [(0, 0, 10, 10), (2, 2, 14, 14) :: row4]
   \<and> 0 < length [(5, 5, 10, 10), (100, 100, 10, 10) :: anchor]
   \<and> matching_polygons box_collaborators (3 / 2) (5, 5, 10, 10)
        (polygon_contours box_collaborators [(0, 10, 10, 0), (2, 12, 12, 2)] [(0, 0, 10, 10), (2, 2, 14, 14)])
        [(5, 5, 10, 10, 0), (7, 8, 10, 12, 0)] = [0, 1]
   \<and> (\<exists>labels seg_gt.
        match_anchor_to_text_boxes box_collaborators (3 / 2) [(5, 5, 10, 10), (100, 100, 10, 10)]
          [(0, 10, 10, 0), (2, 12, 12, 2)] [(0, 0, 10, 10), (2, 2, 14, 14)] = Inr (labels, seg_gt)
        \<and> labels ! 0 = 1
        \<and> seg_gt ! 0 = cal_seg_gt_for_single_anchor (5, 5, 10, 10) (7, 8, 10, 12, 0))"
proof -
  let ?xs = "[(0, 10, 10, 0), (2, 12, 12, 2)] :: row4 list"
  let ?ys = "[(0, 0, 10, 10), (2, 2, 14, 14)] :: row4 list"
  let ?anchors = "[(5, 5, 10, 10), (100, 100, 10, 10)] :: anchor list"
  have h1: "length ?xs = length ?ys" by simp
  have h2: "0 < length ?anchors" by simp
  have ms: "matching_polygons box_collaborators (3 / 2) (5, 5, 10, 10)
        (polygon_contours box_collaborators ?xs ?ys) [(5, 5, 10, 10, 0), (7, 8, 10, 12, 0)] = [0, 1]"
    by (simp add: matching_polygons_def passes_both_tests_def polygon_contours_def
        bbox_points_def box_collaborators_def rect_w_def rect_h_def height_ratio_matched_def
        upt_rec Let_def)
  from last_matching_polygon_wins [OF h1 h2, of box_collaborators "3 / 2"]
  obtain labels seg_gt rects where
    res: "match_anchor_to_text_boxes box_collaborators (3 / 2) ?anchors ?xs ?ys = Inr (labels, seg_gt)"
    and rects: "polygon_rects box_collaborators ?xs ?ys = Inr rects"
    and last: "let ms = matching_polygons box_collaborators (3 / 2) (?anchors ! 0)
                 (polygon_contours box_collaborators ?xs ?ys) rects
       in (ms = [] \<longrightarrow> labels ! 0 = - 1 \<and> seg_gt ! 0 = (0, 0, 0, 0, 0))
        \<and> (ms \<noteq> [] \<longrightarrow> labels ! 0 = int (last ms)
              \<and> seg_gt ! 0 = cal_seg_gt_for_single_anchor (?anchors ! 0) (rects ! last ms))"
    by blast
  from rects have r: "rects = [(5, 5, 10, 10, 0), (7, 8, 10, 12, 0)]"
    by (simp add: polygon_rects_example)
  from last have "labels ! 0 = 1
      \<and> seg_gt ! 0 = cal_seg_gt_for_single_anchor (5, 5, 10, 10) (7, 8, 10, 12, 0)"
    unfolding r by (simp add: ms)
  with res h1 ms show ?thesis by simp
qed

text \<open>
  Claim C5. If \<open>cv2.minAreaRect\<close> reports an angle in \<open>[-90, 0]\<close> for every polygon,
  the regression target of every matched anchor has \<open>theta\<close> in \<open>[-45, 45]\<close>:
  \<open>transform_cv_rect\<close> brings the angle into that range and the derivation of the
  segment (rotate, crop, rotate back) keeps it.
\<close>

theorem matched_theta_canonical:
  assumes res: "match_anchor_to_text_boxes ext mhr anchors xs ys = Inr (labels, seg_gt)"
    and i: "i < length anchors"
    and matched: "labels ! i \<ge> 0"
    and raw: "\<forall>j < length xs.
        (case minAreaRect ext (polygon_contours ext xs ys ! j) of
           (center, extent, theta) \<Rightarrow> - 90 \<le> theta \<and> theta \<le> 0)"
  shows "- 45 \<le> rect_theta (seg_gt ! i) \<and> rect_theta (seg_gt ! i) \<le> 45"
proof -
  from match_anchor_result [OF res] obtain rects where
    len: "length xs = length ys"
    and rects: "polygon_rects ext xs ys = Inr rects"
    and all: "\<forall>i < length anchors.
             (labels ! i, seg_gt ! i) =
               (let ms = matching_polygons ext mhr (anchors ! i) (polygon_contours ext xs ys) rects
                in if ms \<noteq> []
                   then (int (last ms), cal_seg_gt_for_single_anchor (anchors ! i) (rects ! last ms))
                   else (- 1, (0, 0, 0, 0, 0)))"
    by blast
  from polygon_rects_Inr [OF len, of ext] rects have
    rlen: "length rects = length xs"
    and row: "\<forall>j < length xs. rects ! j = transform_cv_rect_row
          (case minAreaRect ext (polygon_contours ext xs ys ! j) of
             ((cx, cy), (w, h), theta) \<Rightarrow> (cx, cy, w, h, theta))"
    by auto
  let ?ms = "matching_polygons ext mhr (anchors ! i) (polygon_contours ext xs ys) rects"
  from all i have eq: "(labels ! i, seg_gt ! i) =
      (if ?ms \<noteq> []
       then (int (last ?ms), cal_seg_gt_for_single_anchor (anchors ! i) (rects ! last ?ms))
       else (- 1, (0, 0, 0, 0, 0)))"
    by (simp add: Let_def)
  with matched have ne: "?ms \<noteq> []" by (auto split: if_splits)
  with eq have seg: "seg_gt ! i = cal_seg_gt_for_single_anchor (anchors ! i) (rects ! last ?ms)"
    by simp
  from ne have "last ?ms \<in> set ?ms" by simp
  then have j: "last ?ms < length xs"
    by (simp add: matching_polygons_def rlen)
  obtain cx cy w h theta where m: "minAreaRect ext (polygon_contours ext xs ys ! last ?ms)
      = ((cx, cy), (w, h), theta)"
    by (metis surj_pair)
  with raw j have th: "- 90 \<le> theta" "theta \<le> 0" by auto
  from row j m have "rects ! last ?ms = transform_cv_rect_row (cx, cy, w, h, theta)" by simp
  with transform_cv_rect_row_theta [OF th] seg show ?thesis
    by (simp add: cal_seg_gt_theta)
qed

theorem matched_theta_canonical_witness:
  "match_anchor_to_text_boxes box_collaborators (3 / 2) [(5, 5, 10, 10), (100, 100, 10, 10)]
     [(0, 10, 10, 0), (2, 12, 12, 2)] [(0, 0, 10, 10), (2, 2, 14, 14)]
     = Inr ([1, - 1], [(6, 8, 8, 12, 0), (0, 0, 0, 0, 0)])
   \<and> (0::nat) < length [(5, 5, 10, 10), (100, 100, 10, 10) :: anchor]
   \<and> [1, - 1 :: int] ! 0 \<ge> 0
   \<and> - 45 \<le> rect_theta ([(6, 8, 8, 12, 0), (0, 0, 0, 0, 0)] ! 0)
   \<and> rect_theta ([(6, 8, 8, 12, 0), (0, 0, 0, 0, 0)] ! 0) \<le> 45"
proof -
  let ?xs = "[(0, 10, 10, 0), (2, 12, 12, 2)] :: row4 list"
  let ?ys = "[(0, 0, 10, 10), (2, 2, 14, 14)] :: row4 list"
  let ?anchors = "[(5, 5, 10, 10), (100, 100, 10, 10)] :: anchor list"
  have h2: "(0::nat) < length ?anchors" by simp
  have h3: "[1, - 1 :: int] ! 0 \<ge> 0" by simp
  have h4: "\<forall>j < length ?xs.
        (case minAreaRect box_collaborators (polygon_contours box_collaborators ?xs ?ys ! j) of
           (center, extent, theta) \<Rightarrow> - 90 \<le> theta \<and> theta \<le> 0)"
    by (simp add: box_collaborators_def)
  from matched_theta_canonical [OF match_example h2 h3 h4] match_example h2 h3
  show ?thesis by blast
qed

subsection \<open>The link ground truth\<close>

lemma cell_index_less:
  assumes "y < h" "x < (w::nat)"
  shows "y * w + x < h * w"
proof -
  have "y * w + x < y * w + w" using assms by simp
  also have "\<dots> = Suc y * w" by simp
  also have "\<dots> \<le> h * w" using assms(1) by (intro mult_le_mono1) simp
  finally show ?thesis .
qed

lemma slot_index_less:
  assumes "y < h" "x < (w::nat)" "n < d"
  shows "(y * w + x) * d + n < h * w * d"
proof -
  have "(y * w + x) * d + n < (y * w + x) * d + d" using assms by simp
  also have "\<dots> = Suc (y * w + x) * d" by simp
  also have "\<dots> \<le> (h * w) * d"
    using cell_index_less [OF assms(1,2)] by (intro mult_le_mono1) simp
  finally show ?thesis .
qed

lemma cell_index_inj:
  assumes "x < (w::nat)" "x' < w" "y * w + x = y' * w + x'"
  shows "y = y' \<and> x = x'"
proof -
  have "(y * w + x) div w = y" "(y * w + x) mod w = x" using assms(1) by simp_all
  moreover have "(y' * w + x') div w = y'" "(y' * w + x') mod w = x'" using assms(2) by simp_all
  ultimately show ?thesis using assms(3) by simp
qed

lemma slot_index_inj:
  assumes "x < (w::nat)" "x' < w" "n < d" "n' < d"
    and "(y * w + x) * d + n = (y' * w + x') * d + n'"
  shows "y = y' \<and> x = x' \<and> n = n'"
proof -
  from cell_index_inj [OF assms(3,4) assms(5)]
  have "y * w + x = y' * w + x'" "n = n'" by simp_all
  with cell_index_inj [OF assms(1,2)] show ?thesis by simp
qed

lemma bind_err_Inr [simp]: "bind_err (Inr x) f = f x"
  by (simp add: bind_err_def)

lemma bind_err_Inl [simp]: "bind_err (Inl e) f = Inl e"
  by (simp add: bind_err_def)

lemma bind_err_eq_Inr:
  "bind_err m f = Inr y \<longleftrightarrow> (\<exists>x. m = Inr x \<and> f x = Inr y)"
  by (cases m) simp_all

lemma label_offset_0 [simp]: "label_offset shapes 0 = 0"
  by (simp add: label_offset_def)

lemma label_offset_Cons_Suc [simp]:
  "label_offset (s # shapes) (Suc l) = fst s * snd s + label_offset shapes l"
  by (simp add: label_offset_def)

lemma reshape_labels_loop_Inr:
  assumes "reshape_labels_loop shapes idx labels = Inr ll"
  shows "length ll = length shapes
     \<and> idx + sum_list (map (\<lambda>s. fst s * snd s) shapes) = length labels
     \<and> (\<forall>l < length shapes.
          ll ! l = take (fst (shapes ! l) * snd (shapes ! l)) (drop (idx + label_offset shapes l) labels))"
  using assms
proof (induction shapes arbitrary: idx ll)
  case Nil
  then show ?case by (simp split: if_splits)
next
  case (Cons s shapes)
  let ?n = "fst s * snd s"
  from Cons.prems have fit: "length (take ?n (drop idx labels)) = ?n"
    by (simp add: Let_def split: if_splits)
  with Cons.prems obtain rest where rest: "reshape_labels_loop shapes (idx + ?n) labels = Inr rest"
    and ll: "ll = take ?n (drop idx labels) # rest"
    by (auto simp add: Let_def bind_err_eq_Inr split: if_splits)
  note IH = Cons.IH [OF rest]
  show ?case
  proof (intro conjI allI impI)
    show "length ll = length (s # shapes)" using IH ll by simp
    show "idx + sum_list (map (\<lambda>s. fst s * snd s) (s # shapes)) = length labels"
      using IH by simp
  next
    fix l assume "l < length (s # shapes)"
    then show "ll ! l = take (fst ((s # shapes) ! l) * snd ((s # shapes) ! l))
        (drop (idx + label_offset (s # shapes) l) labels)"
      using IH ll by (cases l) (simp_all add: add.assoc)
  qed
qed

lemma reshape_labels_loop_total:
  assumes "idx + sum_list (map (\<lambda>s. fst s * snd s) shapes) = length labels"
  shows "\<exists>ll. reshape_labels_loop shapes idx labels = Inr ll"
  using assms
proof (induction shapes arbitrary: idx)
  case Nil
  then show ?case by simp
next
  case (Cons s shapes)
  let ?n = "fst s * snd s"
  from Cons.prems have "(idx + ?n) + sum_list (map (\<lambda>s. fst s * snd s) shapes) = length labels"
    by simp
  from Cons.IH [OF this] obtain rest where "reshape_labels_loop shapes (idx + ?n) labels = Inr rest"
    by blast
  moreover from Cons.prems have "length (take ?n (drop idx labels)) = ?n" by simp
  ultimately show ?case by (simp add: Let_def)
qed

lemma reshape_labels_loop_error:
  "reshape_labels_loop shapes idx labels = Inl e \<Longrightarrow> e = ValueError \<or> e = AssertionError"
proof (induction shapes arbitrary: idx)
  case Nil
  then show ?case by (simp split: if_splits)
next
  case (Cons s shapes)
  then show ?case
    by (auto simp: Let_def bind_err_def split: if_splits sum.splits)
qed

lemma marks_refl: "marks (\<lambda>i. False) arr arr"
  by (simp add: marks_def)

lemma marks_trans:
  assumes "marks P a b" "marks Q b c"
  shows "marks (\<lambda>i. P i \<or> Q i) a c"
  using assms by (auto simp: marks_def)

lemma marks_cong:
  assumes "marks P a b" "\<And>i. i < length a \<Longrightarrow> P i = Q i"
  shows "marks Q a b"
  using assms by (auto simp: marks_def)

lemma marks_length: "marks P a b \<Longrightarrow> length b = length a"
  by (simp add: marks_def)

lemma for_each_marks:
  assumes "\<And>a s. a \<in> set as \<Longrightarrow> length s = len \<Longrightarrow> \<exists>t. body a s = Inr t \<and> marks (P a) s t"
    and "length s = len"
  shows "\<exists>t. for_each body as s = Inr t \<and> marks (\<lambda>i. \<exists>a \<in> set as. P a i) s t"
  using assms
proof (induction as arbitrary: s)
  case Nil
  then show ?case by (simp add: marks_refl)
next
  case (Cons a as)
  from Cons.prems(1) [of a s] Cons.prems(2) obtain t where
    t: "body a s = Inr t" "marks (P a) s t" by auto
  then have lt: "length t = len" using Cons.prems(2) by (simp add: marks_def)
  have "\<exists>u. for_each body as t = Inr u \<and> marks (\<lambda>i. \<exists>a \<in> set as. P a i) t u"
    by (rule Cons.IH [OF _ lt]) (use Cons.prems(1) in auto)
  then obtain u where u: "for_each body as t = Inr u" "marks (\<lambda>i. \<exists>a \<in> set as. P a i) t u"
    by blast
  have "marks (\<lambda>i. \<exists>b \<in> set (a # as). P b i) s u"
    by (rule marks_cong [OF marks_trans [OF t(2) u(2)]]) auto
  with t(1) u(1) show ?case by simp
qed

lemma for_each_marks2:
  assumes "\<And>a s1 s2. a \<in> set as \<Longrightarrow> length s1 = n1 \<Longrightarrow> length s2 = n2 \<Longrightarrow>
             \<exists>t1 t2. body a (s1, s2) = Inr (t1, t2) \<and> marks (P a) s1 t1 \<and> marks (Q a) s2 t2"
    and "length s1 = n1" "length s2 = n2"
  shows "\<exists>t1 t2. for_each body as (s1, s2) = Inr (t1, t2)
     \<and> marks (\<lambda>i. \<exists>a \<in> set as. P a i) s1 t1 \<and> marks (\<lambda>i. \<exists>a \<in> set as. Q a i) s2 t2"
  using assms
proof (induction as arbitrary: s1 s2)
  case Nil
  then show ?case by (simp add: marks_refl)
next
  case (Cons a as)
  from Cons.prems(1) [of a s1 s2] Cons.prems(2,3) obtain t1 t2 where
    t: "body a (s1, s2) = Inr (t1, t2)" "marks (P a) s1 t1" "marks (Q a) s2 t2" by auto
  then have lt: "length t1 = n1" "length t2 = n2" using Cons.prems(2,3) by (simp_all add: marks_def)
  have "\<exists>u1 u2. for_each body as (t1, t2) = Inr (u1, u2)
     \<and> marks (\<lambda>i. \<exists>a \<in> set as. P a i) t1 u1 \<and> marks (\<lambda>i. \<exists>a \<in> set as. Q a i) t2 u2"
    by (rule Cons.IH [OF _ lt]) (use Cons.prems(1) in auto)
  then obtain u1 u2 where u: "for_each body as (t1, t2) = Inr (u1, u2)"
    "marks (\<lambda>i. \<exists>a \<in> set as. P a i) t1 u1" "marks (\<lambda>i. \<exists>a \<in> set as. Q a i) t2 u2"
    by blast
  have "marks (\<lambda>i. \<exists>b \<in> set (a # as). P b i) s1 u1"
    by (rule marks_cong [OF marks_trans [OF t(2) u(2)]]) auto
  moreover have "marks (\<lambda>i. \<exists>b \<in> set (a # as). Q b i) s2 u2"
    by (rule marks_cong [OF marks_trans [OF t(3) u(3)]]) auto
  ultimately show ?case using t(1) u(1) by simp
qed

lemma grid_get_valid:
  assumes "is_valid_cord nx ny (int nw) (int nh)"
  shows "grid_get nh nw grid ny nx = Inr (grid ! (nat ny * nw + nat nx))"
  using assms by (simp add: is_valid_cord_def grid_get_def)

lemma link_gt_neighbour_marks:
  assumes "y < h" "x < w" "nidx < d" "length arr = h * w * d"
  shows "\<exists>arr'. link_gt_neighbour nh nw nl m h w d y x (nidx, nb) arr = Inr arr'
     \<and> marks (\<lambda>i. i = (y * w + x) * d + nidx \<and> nb_linked nh nw nl m nb) arr arr'"
proof (cases "nb_linked nh nw nl m nb")
  case True
  then have "link_gt_neighbour nh nw nl m h w d y x (nidx, nb) arr
      = Inr (arr[(y * w + x) * d + nidx := 1])"
    using assms(1-3)
    by (cases nb) (simp add: link_gt_neighbour_def nb_linked_def grid_get_valid cube_set_def)
  with True show ?thesis by (simp add: marks_def nth_list_update)
next
  case False
  then have "link_gt_neighbour nh nw nl m h w d y x (nidx, nb) arr = Inr arr"
    by (cases nb) (auto simp add: link_gt_neighbour_def nb_linked_def grid_get_valid)
  with False show ?thesis by (simp add: marks_def)
qed

lemma set_enumerate_0: "set (enumerate 0 xs) = (\<lambda>n. (n, xs ! n)) ` {0 ..< length xs}"
proof (intro set_eqI iffI)
  fix p assume a: "p \<in> set (enumerate 0 xs)"
  obtain n v where p: "p = (n, v)" by (cases p)
  with a have "n < length xs" "xs ! n = v" by (simp_all add: in_set_enumerate_eq)
  with p show "p \<in> (\<lambda>n. (n, xs ! n)) ` {0 ..< length xs}"
    by auto
next
  fix p assume "p \<in> (\<lambda>n. (n, xs ! n)) ` {0 ..< length xs}"
  then show "p \<in> set (enumerate 0 xs)"
    by (auto simp: in_set_enumerate_eq)
qed

lemma link_gt_neighbours_marks:
  assumes "y < h" "x < w" "length nbs = d" "length arr = h * w * d"
  shows "\<exists>arr'. for_each (link_gt_neighbour nh nw nl m h w d y x) (enumerate 0 nbs) arr = Inr arr'
     \<and> marks (\<lambda>i. \<exists>n < d. i = (y * w + x) * d + n \<and> nb_linked nh nw nl m (nbs ! n)) arr arr'"
proof -
  have "\<exists>arr'. for_each (link_gt_neighbour nh nw nl m h w d y x) (enumerate 0 nbs) arr = Inr arr'
     \<and> marks (\<lambda>i. \<exists>a \<in> set (enumerate 0 nbs).
          i = (y * w + x) * d + fst a \<and> nb_linked nh nw nl m (snd a)) arr arr'"
  proof (rule for_each_marks [where len = "h * w * d"])
    fix a :: "nat \<times> int \<times> int" and s :: "int list"
    assume a: "a \<in> set (enumerate 0 nbs)" and s: "length s = h * w * d"
    obtain nidx nb where p: "a = (nidx, nb)" by (cases a)
    with a assms(3) have "nidx < d" by (simp add: in_set_enumerate_eq)
    from link_gt_neighbour_marks [OF assms(1,2) this s] p
    show "\<exists>t. link_gt_neighbour nh nw nl m h w d y x a s = Inr t
       \<and> marks (\<lambda>i. i = (y * w + x) * d + fst a \<and> nb_linked nh nw nl m (snd a)) s t"
      by simp
  qed (rule assms(4))
  then obtain arr' where r: "for_each (link_gt_neighbour nh nw nl m h w d y x) (enumerate 0 nbs) arr = Inr arr'"
    and m: "marks (\<lambda>i. \<exists>a \<in> set (enumerate 0 nbs).
          i = (y * w + x) * d + fst a \<and> nb_linked nh nw nl m (snd a)) arr arr'"
    by blast
  have "marks (\<lambda>i. \<exists>n < d. i = (y * w + x) * d + n \<and> nb_linked nh nw nl m (nbs ! n)) arr arr'"
  proof (rule marks_cong [OF m])
    fix i
    show "(\<exists>a \<in> set (enumerate 0 nbs). i = (y * w + x) * d + fst a \<and> nb_linked nh nw nl m (snd a))
        = (\<exists>n < d. i = (y * w + x) * d + n \<and> nb_linked nh nw nl m (nbs ! n))"
      using assms(3) by (auto simp: set_enumerate_0)
  qed
  with r show ?thesis by blast
qed

lemma link_gt_cell_marks:
  assumes y: "y < fst (shapes ! l)" and x: "x < snd (shapes ! l)"
    and li: "length ilg = fst (shapes ! l) * snd (shapes ! l) * 8"
    and lc: "length clg = (if 0 < l then fst (shapes ! l) * snd (shapes ! l) * 4 else 0)"
  shows "\<exists>ilg' clg'. link_gt_cell shapes ll l x y (ilg, clg) = Inr (ilg', clg')
     \<and> marks (\<lambda>i. \<exists>n < 8. i = (y * snd (shapes ! l) + x) * 8 + n
                 \<and> grid_inter_linked shapes ll l y x n) ilg ilg'
     \<and> marks (\<lambda>i. \<exists>n < 4. i = (y * snd (shapes ! l) + x) * 4 + n
                 \<and> grid_cross_linked shapes ll l y x n) clg clg'"
proof -
  let ?h = "fst (shapes ! l)" and ?w = "snd (shapes ! l)"
  let ?m = "ll ! l ! (y * ?w + x)"
  have get: "grid_get ?h ?w (ll ! l) (int y) (int x) = Inr ?m"
    using y x by (simp add: grid_get_def)
  show ?thesis
  proof (cases "?m \<ge> 0")
    case False
    with get have "link_gt_cell shapes ll l x y (ilg, clg) = Inr (ilg, clg)"
      by (simp add: link_gt_cell_def Let_def)
    moreover have "marks (\<lambda>i. \<exists>n < 8. i = (y * ?w + x) * 8 + n
                 \<and> grid_inter_linked shapes ll l y x n) ilg ilg"
      using False by (simp add: marks_def grid_inter_linked_def Let_def)
    moreover have "marks (\<lambda>i. \<exists>n < 4. i = (y * ?w + x) * 4 + n
                 \<and> grid_cross_linked shapes ll l y x n) clg clg"
      using False by (simp add: marks_def grid_cross_linked_def Let_def)
    ultimately show ?thesis by blast
  next
    case True
    have "length (get_inter_layer_neighbours (int x) (int y)) = 8"
      by (simp add: get_inter_layer_neighbours_def)
    from link_gt_neighbours_marks [OF y x this li, of ?h ?w "ll ! l" ?m]
    obtain ilg' where
      i1: "for_each (link_gt_neighbour ?h ?w (ll ! l) ?m ?h ?w 8 y x)
             (enumerate 0 (get_inter_layer_neighbours (int x) (int y))) ilg = Inr ilg'"
      and i2: "marks (\<lambda>i. \<exists>n < 8. i = (y * ?w + x) * 8 + n
             \<and> nb_linked ?h ?w (ll ! l) ?m (get_inter_layer_neighbours (int x) (int y) ! n))
             ilg ilg'"
      by blast
    have mi: "marks (\<lambda>i. \<exists>n < 8. i = (y * ?w + x) * 8 + n
                 \<and> grid_inter_linked shapes ll l y x n) ilg ilg'"
      by (rule marks_cong [OF i2]) (use True in \<open>simp add: grid_inter_linked_def Let_def\<close>)
    show ?thesis
    proof (cases "0 < l")
      case False
      with True i1 get have "link_gt_cell shapes ll l x y (ilg, clg) = Inr (ilg', clg)"
        by (simp add: link_gt_cell_def Let_def)
      moreover have "marks (\<lambda>i. \<exists>n < 4. i = (y * ?w + x) * 4 + n
                 \<and> grid_cross_linked shapes ll l y x n) clg clg"
        using False by (simp add: marks_def grid_cross_linked_def Let_def)
      ultimately show ?thesis using mi by blast
    next
      case pos: True
      let ?ph = "fst (shapes ! (l - 1))" and ?pw = "snd (shapes ! (l - 1))"
      have len4: "length (get_cross_layer_neighbours (int x) (int y)) = 4"
        by (simp add: get_cross_layer_neighbours_def)
      from lc pos have lc': "length clg = ?h * ?w * 4" by simp
      from link_gt_neighbours_marks [OF y x len4 lc', of ?ph ?pw "ll ! (l - 1)" ?m]
      obtain clg' where
        c1: "for_each (link_gt_neighbour ?ph ?pw (ll ! (l - 1)) ?m ?h ?w 4 y x)
               (enumerate 0 (get_cross_layer_neighbours (int x) (int y))) clg = Inr clg'"
        and c2: "marks (\<lambda>i. \<exists>n < 4. i = (y * ?w + x) * 4 + n
               \<and> nb_linked ?ph ?pw (ll ! (l - 1)) ?m (get_cross_layer_neighbours (int x) (int y) ! n))
               clg clg'"
        by blast
      have mc: "marks (\<lambda>i. \<exists>n < 4. i = (y * ?w + x) * 4 + n
                 \<and> grid_cross_linked shapes ll l y x n) clg clg'"
        by (rule marks_cong [OF c2]) (use True pos in \<open>simp add: grid_cross_linked_def Let_def\<close>)
      from True pos i1 c1 get have "link_gt_cell shapes ll l x y (ilg, clg) = Inr (ilg', clg')"
        by (simp add: link_gt_cell_def Let_def)
      with mi mc show ?thesis by blast
    qed
  qed
qed

lemma link_gt_layer_marks:
  fixes shapes :: "(nat \<times> nat) list" and l :: nat
  defines "h \<equiv> fst (shapes ! l)" and "w \<equiv> snd (shapes ! l)"
  shows "\<exists>ilg clg. link_gt_layer shapes ll l = Inr (ilg, clg)
     \<and> marks (\<lambda>i. \<exists>x < w. \<exists>y < h. \<exists>n < 8. i = (y * w + x) * 8 + n
                 \<and> grid_inter_linked shapes ll l y x n) (replicate (h * w * 8) 0) ilg
     \<and> marks (\<lambda>i. \<exists>x < w. \<exists>y < h. \<exists>n < 4. i = (y * w + x) * 4 + n
                 \<and> grid_cross_linked shapes ll l y x n)
         (if 0 < l then replicate (h * w * 4) 0 else []) clg"
proof -
  let ?n1 = "h * w * 8" and ?n2 = "if 0 < l then h * w * 4 else 0"
  let ?P = "\<lambda>x y i. \<exists>n < 8. i = (y * w + x) * 8 + n \<and> grid_inter_linked shapes ll l y x n"
  let ?Q = "\<lambda>x y i. \<exists>n < 4. i = (y * w + x) * 4 + n \<and> grid_cross_linked shapes ll l y x n"
  let ?c0 = "if 0 < l then replicate (h * w * 4) 0 else [] :: int list"
  have inner: "\<exists>t1 t2. for_each (link_gt_cell shapes ll l x) [0 ..< h] (s1, s2) = Inr (t1, t2)
      \<and> marks (\<lambda>i. \<exists>y \<in> set [0 ..< h]. ?P x y i) s1 t1
      \<and> marks (\<lambda>i. \<exists>y \<in> set [0 ..< h]. ?Q x y i) s2 t2"
    if x: "x \<in> set [0 ..< w]" and s: "length s1 = ?n1" "length s2 = ?n2" for x s1 s2
  proof (rule for_each_marks2 [where ?n1.0 = ?n1 and ?n2.0 = ?n2])
    fix y :: nat and u1 u2 :: "int list"
    assume "y \<in> set [0 ..< h]" "length u1 = ?n1" "length u2 = ?n2"
    then show "\<exists>t1 t2. link_gt_cell shapes ll l x y (u1, u2) = Inr (t1, t2)
        \<and> marks (?P x y) u1 t1 \<and> marks (?Q x y) u2 t2"
      using link_gt_cell_marks [of y shapes l x u1 u2 ll] x
      by (simp add: h_def w_def)
  qed (rule s)+
  have "\<exists>t1 t2. for_each (\<lambda>x. for_each (link_gt_cell shapes ll l x) [0 ..< h]) [0 ..< w]
        (replicate ?n1 0, ?c0) = Inr (t1, t2)
      \<and> marks (\<lambda>i. \<exists>x \<in> set [0 ..< w]. \<exists>y \<in> set [0 ..< h]. ?P x y i) (replicate ?n1 0) t1
      \<and> marks (\<lambda>i. \<exists>x \<in> set [0 ..< w]. \<exists>y \<in> set [0 ..< h]. ?Q x y i) ?c0 t2"
  proof (rule for_each_marks2 [where ?n1.0 = ?n1 and ?n2.0 = ?n2])
    fix x :: nat and u1 u2 :: "int list"
    assume "x \<in> set [0 ..< w]" "length u1 = ?n1" "length u2 = ?n2"
    then show "\<exists>t1 t2. for_each (link_gt_cell shapes ll l x) [0 ..< h] (u1, u2) = Inr (t1, t2)
      \<and> marks (\<lambda>i. \<exists>y \<in> set [0 ..< h]. ?P x y i) u1 t1
      \<and> marks (\<lambda>i. \<exists>y \<in> set [0 ..< h]. ?Q x y i) u2 t2"
      by (rule inner)
  qed simp_all
  then obtain t1 t2 where
    r: "link_gt_layer shapes ll l = Inr (t1, t2)"
    and m1: "marks (\<lambda>i. \<exists>x \<in> set [0 ..< w]. \<exists>y \<in> set [0 ..< h]. ?P x y i) (replicate ?n1 0) t1"
    and m2: "marks (\<lambda>i. \<exists>x \<in> set [0 ..< w]. \<exists>y \<in> set [0 ..< h]. ?Q x y i) ?c0 t2"
    unfolding link_gt_layer_def Let_def h_def w_def by blast
  have "marks (\<lambda>i. \<exists>x < w. \<exists>y < h. ?P x y i) (replicate ?n1 0) t1"
    by (rule marks_cong [OF m1]) (simp add: Bex_def)
  moreover have "marks (\<lambda>i. \<exists>x < w. \<exists>y < h. ?Q x y i) ?c0 t2"
    by (rule marks_cong [OF m2]) (simp add: Bex_def)
  ultimately show ?thesis using r by blast
qed

lemma marks_zero_one:
  assumes "marks P (replicate k 0) t"
  shows "set t \<subseteq> {0, 1}"
proof
  fix v assume "v \<in> set t"
  then obtain i where "i < length t" "t ! i = v" by (auto simp: in_set_conv_nth)
  with assms show "v \<in> {0, 1}" by (auto simp: marks_def split: if_splits)
qed

lemma link_gt_layer_slots:
  fixes shapes :: "(nat \<times> nat) list" and l :: nat
  defines "h \<equiv> fst (shapes ! l)" and "w \<equiv> snd (shapes ! l)"
  shows "\<exists>ilg clg. link_gt_layer shapes ll l = Inr (ilg, clg)
     \<and> length ilg = h * w * 8 \<and> length clg = (if 0 < l then h * w * 4 else 0)
     \<and> set ilg \<subseteq> {0, 1} \<and> set clg \<subseteq> {0, 1}
     \<and> (\<forall>y < h. \<forall>x < w. \<forall>n < 8.
          ilg ! ((y * w + x) * 8 + n) = (if grid_inter_linked shapes ll l y x n then 1 else 0))
     \<and> (\<forall>y < h. \<forall>x < w. \<forall>n < 4. 0 < l \<longrightarrow>
          clg ! ((y * w + x) * 4 + n) = (if grid_cross_linked shapes ll l y x n then 1 else 0))"
proof -
  from link_gt_layer_marks [of shapes ll l] obtain ilg clg where
    r: "link_gt_layer shapes ll l = Inr (ilg, clg)"
    and m1: "marks (\<lambda>i. \<exists>x < w. \<exists>y < h. \<exists>n < 8. i = (y * w + x) * 8 + n
                 \<and> grid_inter_linked shapes ll l y x n) (replicate (h * w * 8) 0) ilg"
    and m2: "marks (\<lambda>i. \<exists>x < w. \<exists>y < h. \<exists>n < 4. i = (y * w + x) * 4 + n
                 \<and> grid_cross_linked shapes ll l y x n)
         (if 0 < l then replicate (h * w * 4) 0 else []) clg"
    unfolding h_def w_def by blast
  have l1: "length ilg = h * w * 8" using m1 by (simp add: marks_def)
  have l2: "length clg = (if 0 < l then h * w * 4 else 0)" using m2 by (simp add: marks_def)
  have z1: "set ilg \<subseteq> {0, 1}" using m1 by (rule marks_zero_one)
  have z2: "set clg \<subseteq> {0, 1}"
  proof (cases "0 < l")
    case True
    with m2 have "marks (\<lambda>i. \<exists>x < w. \<exists>y < h. \<exists>n < 4. i = (y * w + x) * 4 + n
                 \<and> grid_cross_linked shapes ll l y x n) (replicate (h * w * 4) 0) clg"
      by simp
    then show ?thesis by (rule marks_zero_one)
  next
    case False
    with l2 show ?thesis by simp
  qed
  have s1: "ilg ! ((y * w + x) * 8 + n) = (if grid_inter_linked shapes ll l y x n then 1 else 0)"
    if "y < h" "x < w" "n < 8" for y x n
  proof -
    have lt: "(y * w + x) * 8 + n < h * w * 8" using that by (rule slot_index_less)
    have "(\<exists>x' < w. \<exists>y' < h. \<exists>n' < 8. (y * w + x) * 8 + n = (y' * w + x') * 8 + n'
                 \<and> grid_inter_linked shapes ll l y' x' n') = grid_inter_linked shapes ll l y x n"
      using that slot_index_inj [of x w _ n 8 _ y] by blast
    with m1 lt show ?thesis by (simp add: marks_def)
  qed
  have s2: "clg ! ((y * w + x) * 4 + n) = (if grid_cross_linked shapes ll l y x n then 1 else 0)"
    if "y < h" "x < w" "n < 4" "0 < l" for y x n
  proof -
    have lt: "(y * w + x) * 4 + n < h * w * 4" using that(1-3) by (rule slot_index_less)
    have "(\<exists>x' < w. \<exists>y' < h. \<exists>n' < 4. (y * w + x) * 4 + n = (y' * w + x') * 4 + n'
                 \<and> grid_cross_linked shapes ll l y' x' n') = grid_cross_linked shapes ll l y x n"
      using that slot_index_inj [of x w _ n 4 _ y] by blast
    with m2 lt that(4) show ?thesis by (simp add: marks_def)
  qed
  from r l1 l2 z1 z2 s1 s2 show ?thesis by blast
qed

lemma link_gt_layers_loop:
  "for_each (link_gt_layers shapes ll) ls (I, C) =
     Inr (I @ map (\<lambda>l. fst (projr (link_gt_layer shapes ll l))) ls,
          C @ map (\<lambda>l. snd (projr (link_gt_layer shapes ll l))) (filter (\<lambda>l. 0 < l) ls))"
proof (induction ls arbitrary: I C)
  case Nil
  show ?case by simp
next
  case (Cons l ls)
  from link_gt_layer_marks [of shapes ll l] obtain ilg clg where
    r: "link_gt_layer shapes ll l = Inr (ilg, clg)" by blast
  then have "link_gt_layers shapes ll l (I, C) = Inr (I @ [ilg], if 0 < l then C @ [clg] else C)"
    by (simp add: link_gt_layers_def)
  then show ?case using r by (simp add: Cons.IH)
qed

lemma filter_pos_upt: "filter (\<lambda>l. 0 < l) [0 ..< L] = [1 ..< L]"
proof (cases L)
  case 0
  then show ?thesis by simp
next
  case (Suc k)
  have "filter (\<lambda>l. 0 < l) [Suc 0 ..< Suc k] = [Suc 0 ..< Suc k]"
    by (rule filter_True) auto
  then show ?thesis using Suc by (simp add: upt_rec [of 0])
qed

lemma sum_upt_le:
  fixes g :: "nat \<Rightarrow> nat"
  assumes "l < L"
  shows "sum_list (map g [0 ..< l]) + g l \<le> sum_list (map g [0 ..< L])"
  using assms
proof (induction L)
  case 0
  then show ?case by simp
next
  case (Suc L)
  show ?case
  proof (cases "l = L")
    case True
    then show ?thesis by simp
  next
    case False
    with Suc.prems have "l < L" by simp
    from Suc.IH [OF this] show ?thesis by simp
  qed
qed

lemma concat_map_upt_length:
  assumes "\<forall>l < L. length (f l) = g l"
  shows "length (concat (map f [0 ..< L])) = sum_list (map g [0 ..< L])"
  using assms by (induction L) simp_all

lemma concat_map_upt_nth:
  assumes "\<forall>l < L. length (f l) = g l" and "l < L" and "k < g l"
  shows "concat (map f [0 ..< L]) ! (sum_list (map g [0 ..< l]) + k) = f l ! k"
  using assms
proof (induction L)
  case 0
  then show ?case by simp
next
  case (Suc L)
  have len: "length (concat (map f [0 ..< L])) = sum_list (map g [0 ..< L])"
    using Suc.prems(1) by (intro concat_map_upt_length) simp
  show ?case
  proof (cases "l = L")
    case True
    then show ?thesis by (simp add: nth_append len)
  next
    case False
    with Suc.prems have l: "l < L" by simp
    from sum_upt_le [OF l, of g] Suc.prems(3)
    have "sum_list (map g [0 ..< l]) + k < sum_list (map g [0 ..< L])" by simp
    moreover have "concat (map f [0 ..< L]) ! (sum_list (map g [0 ..< l]) + k) = f l ! k"
      using Suc.IH Suc.prems l by simp
    ultimately show ?thesis by (simp add: nth_append len)
  qed
qed

lemma map_nth_upt_take:
  assumes "l \<le> length xs"
  shows "map (\<lambda>i. F (xs ! i)) [0 ..< l] = map F (take l xs)"
  using assms by (intro nth_equalityI) simp_all

lemma map_upt_1:
  "map f [Suc 0 ..< L] = map (\<lambda>j. f (Suc j)) [0 ..< L - Suc 0]"
proof -
  have "[Suc 0 ..< L] = map Suc [0 ..< L - Suc 0]"
    by (cases L) (simp_all add: map_Suc_upt)
  then show ?thesis by (simp add: comp_def)
qed

lemma label_offset_upt:
  assumes "l \<le> length shapes"
  shows "label_offset shapes l = sum_list (map (\<lambda>i. fst (shapes ! i) * snd (shapes ! i)) [0 ..< l])"
  unfolding label_offset_def using map_nth_upt_take [OF assms, of "\<lambda>s. fst s * snd s"] by simp

lemma num_anchors_upt:
  "num_anchors shapes = sum_list (map (\<lambda>i. fst (shapes ! i) * snd (shapes ! i)) [0 ..< length shapes])"
  unfolding num_anchors_def using map_nth_upt_take [of "length shapes" shapes "\<lambda>s. fst s * snd s"] by simp

lemma label_offset_le:
  assumes "l < length shapes"
  shows "label_offset shapes l + fst (shapes ! l) * snd (shapes ! l) \<le> num_anchors shapes"
  using sum_upt_le [OF assms, of "\<lambda>i. fst (shapes ! i) * snd (shapes ! i)"] assms
  by (simp add: label_offset_upt num_anchors_upt)

lemma reshape_labels_length:
  assumes "reshape_labels_by_layer shapes labels = Inr ll"
  shows "length labels = num_anchors shapes"
  using reshape_labels_loop_Inr [of shapes 0 labels ll] assms
  by (simp add: reshape_labels_by_layer_def num_anchors_def)

lemma reshape_labels_nth:
  assumes "reshape_labels_by_layer shapes labels = Inr ll"
    and "l < length shapes" and "k < fst (shapes ! l) * snd (shapes ! l)"
  shows "ll ! l ! k = labels ! (label_offset shapes l + k)"
proof -
  from reshape_labels_loop_Inr [of shapes 0 labels ll] assms(1,2)
  have "ll ! l = take (fst (shapes ! l) * snd (shapes ! l)) (drop (label_offset shapes l) labels)"
    by (simp add: reshape_labels_by_layer_def)
  moreover have "label_offset shapes l \<le> length labels"
    using label_offset_le [OF assms(2)] reshape_labels_length [OF assms(1)] by simp
  ultimately show ?thesis using assms(3) by simp
qed

lemma reshape_labels_returns:
  "(\<exists>ll. reshape_labels_by_layer shapes labels = Inr ll) \<longleftrightarrow> length labels = num_anchors shapes"
  using reshape_labels_loop_total [of 0 shapes labels] reshape_labels_length [of shapes labels]
  by (auto simp: reshape_labels_by_layer_def num_anchors_def)

lemma inter_neighbour_nth:
  assumes "n < 8"
  shows "get_inter_layer_neighbours x y ! n = (x + fst (inter_offset n), y + snd (inter_offset n))"
proof -
  from assms have "n = 0 \<or> n = 1 \<or> n = 2 \<or> n = 3 \<or> n = 4 \<or> n = 5 \<or> n = 6 \<or> n = 7"
    by arith
  then show ?thesis
    by (elim disjE) (simp_all add: get_inter_layer_neighbours_def inter_offset_def)
qed

lemma cross_neighbour_nth:
  assumes "n < 4"
  shows "get_cross_layer_neighbours x y ! n = (2 * x + int (n mod 2), 2 * y + int (n div 2))"
proof -
  from assms have "n = 0 \<or> n = 1 \<or> n = 2 \<or> n = 3"
    by arith
  then show ?thesis
    by (elim disjE) (simp_all add: get_cross_layer_neighbours_def)
qed

lemma grid_inter_linked_eq:
  assumes r: "reshape_labels_by_layer shapes labels = Inr ll"
    and l: "l < length shapes" and y: "y < fst (shapes ! l)" and x: "x < snd (shapes ! l)"
    and n: "n < 8"
  shows "grid_inter_linked shapes ll l y x n
     = cells_linked shapes labels l y x l
         (int y + snd (inter_offset n)) (int x + fst (inter_offset n))"
proof -
  let ?h = "fst (shapes ! l)" and ?w = "snd (shapes ! l)"
  define nx where "nx = int x + fst (inter_offset n)"
  define ny where "ny = int y + snd (inter_offset n)"
  have nb: "get_inter_layer_neighbours (int x) (int y) ! n = (nx, ny)"
    unfolding nx_def ny_def by (rule inter_neighbour_nth [OF n])
  have m: "ll ! l ! (y * ?w + x) = label_at shapes labels l y x"
    using reshape_labels_nth [OF r l cell_index_less [OF y x]] by (simp add: label_at_def add.assoc)
  have "grid_inter_linked shapes ll l y x n = cells_linked shapes labels l y x l ny nx"
  proof (cases "is_valid_cord nx ny (int ?w) (int ?h)")
    case False
    then show ?thesis
      by (auto simp add: grid_inter_linked_def cells_linked_def nb_linked_def nb
          is_valid_cord_def Let_def)
  next
    case True
    then have "nat ny < ?h" "nat nx < ?w" by (auto simp add: is_valid_cord_def)
    from reshape_labels_nth [OF r l cell_index_less [OF this]]
    have "ll ! l ! (nat ny * ?w + nat nx) = label_at shapes labels l (nat ny) (nat nx)"
      by (simp add: label_at_def add.assoc)
    with m True show ?thesis
      by (auto simp add: grid_inter_linked_def cells_linked_def nb_linked_def nb
          is_valid_cord_def Let_def)
  qed
  then show ?thesis unfolding nx_def ny_def .
qed

lemma grid_cross_linked_eq:
  assumes r: "reshape_labels_by_layer shapes labels = Inr ll"
    and l: "l < length shapes" "0 < l" and y: "y < fst (shapes ! l)" and x: "x < snd (shapes ! l)"
    and n: "n < 4"
  shows "grid_cross_linked shapes ll l y x n
     = cells_linked shapes labels l y x (l - 1)
         (2 * int y + int (n div 2)) (2 * int x + int (n mod 2))"
proof -
  let ?w = "snd (shapes ! l)"
  let ?ph = "fst (shapes ! (l - 1))" and ?pw = "snd (shapes ! (l - 1))"
  define nx where "nx = 2 * int x + int (n mod 2)"
  define ny where "ny = 2 * int y + int (n div 2)"
  have nb: "get_cross_layer_neighbours (int x) (int y) ! n = (nx, ny)"
    unfolding nx_def ny_def by (rule cross_neighbour_nth [OF n])
  have m: "ll ! l ! (y * ?w + x) = label_at shapes labels l y x"
    using reshape_labels_nth [OF r l(1) cell_index_less [OF y x]] by (simp add: label_at_def add.assoc)
  from l have pl: "l - 1 < length shapes" by simp
  have "grid_cross_linked shapes ll l y x n = cells_linked shapes labels l y x (l - 1) ny nx"
  proof (cases "is_valid_cord nx ny (int ?pw) (int ?ph)")
    case False
    then show ?thesis
      by (auto simp add: grid_cross_linked_def cells_linked_def nb_linked_def nb
          is_valid_cord_def Let_def)
  next
    case True
    then have "nat ny < ?ph" "nat nx < ?pw" by (auto simp add: is_valid_cord_def)
    from reshape_labels_nth [OF r pl cell_index_less [OF this]]
    have "ll ! (l - 1) ! (nat ny * ?pw + nat nx) = label_at shapes labels (l - 1) (nat ny) (nat nx)"
      by (simp add: label_at_def add.assoc)
    with m True l(2) show ?thesis
      by (auto simp add: grid_cross_linked_def cells_linked_def nb_linked_def nb
          is_valid_cord_def Let_def)
  qed
  then show ?thesis unfolding nx_def ny_def .
qed

lemma cal_link_gt_unfold:
  assumes "reshape_labels_by_layer shapes labels = Inr ll"
  shows "cal_link_gt shapes labels =
     (if length shapes < 2 then Inl ValueError
      else Inr (concat (map (\<lambda>l. fst (projr (link_gt_layer shapes ll l))) [0 ..< length shapes])
              @ concat (map (\<lambda>l. snd (projr (link_gt_layer shapes ll l))) [1 ..< length shapes])))"
proof -
  have "length shapes < 2 \<longleftrightarrow> shapes = [] \<or> length shapes = Suc 0"
    by (cases shapes) auto
  then show ?thesis
    by (auto simp add: cal_link_gt_def assms link_gt_layers_loop filter_pos_upt hstack_def)
qed

lemma cal_link_gt_returns_iff:
  "(\<exists>link_gt. cal_link_gt shapes labels = Inr link_gt)
     \<longleftrightarrow> 2 \<le> length shapes \<and> length labels = num_anchors shapes"
proof (cases "reshape_labels_by_layer shapes labels")
  case (Inl e)
  then have "cal_link_gt shapes labels = Inl e" by (simp add: cal_link_gt_def)
  moreover from Inl have "length labels \<noteq> num_anchors shapes"
    using reshape_labels_returns [of shapes labels] by auto
  ultimately show ?thesis by simp
next
  case (Inr ll)
  then have "length labels = num_anchors shapes" by (rule reshape_labels_length)
  with cal_link_gt_unfold [OF Inr] show ?thesis by auto
qed

lemma sum_shapes_upt:
  "sum_list (map (\<lambda>i. F (shapes ! i)) [0 ..< length shapes]) = sum_list (map F shapes)"
  using map_nth_upt_take [of "length shapes" shapes F] by simp

lemma sum_tl_shapes_upt:
  "sum_list (map (\<lambda>j. F (shapes ! Suc j)) [0 ..< l]) = sum_list (map F (take l (tl shapes)))"
  if "l \<le> length shapes - 1"
proof -
  have "map (\<lambda>j. F (shapes ! Suc j)) [0 ..< l] = map (\<lambda>j. F (tl shapes ! j)) [0 ..< l]"
    using that by (intro map_cong refl) (simp add: nth_tl)
  also have "\<dots> = map F (take l (tl shapes))"
    using that by (intro map_nth_upt_take) simp
  finally show ?thesis by simp
qed

text \<open>
  Claim C3. \<open>cal_link_gt\<close> returns exactly when there are two or more layers and the
  label array has one entry for every anchor. In its output, of length \<open>num_links\<close>,
  every entry is 0 or 1. Slot \<open>n < 8\<close> of a cell \<open>(l, y, x)\<close> is 1 if and only if the
  grid-adjacent cell in row \<open>y + dy\<close> and column \<open>x + dx\<close>, with
  \<open>(dx, dy) = inter_offset n\<close>, lies in the grid of the layer and carries the same
  non-negative label as the cell. Slot \<open>n < 4\<close> of a cell \<open>(l, y, x)\<close> of a layer after
  the first is 1 if and only if the cell in row \<open>2y + n div 2\<close> and column
  \<open>2x + n mod 2\<close> of the previous layer lies in the grid of that layer and carries the
  same non-negative label as the cell. Every other slot is 0.
\<close>

theorem cal_link_gt_slots:
  assumes L2: "2 \<le> length shapes" and len: "length labels = num_anchors shapes"
  shows "\<exists>link_gt. cal_link_gt shapes labels = Inr link_gt
     \<and> length link_gt = num_links shapes
     \<and> set link_gt \<subseteq> {0, 1}
     \<and> (\<forall>l < length shapes. \<forall>y < fst (shapes ! l). \<forall>x < snd (shapes ! l). \<forall>n < 8.
          link_gt ! inter_slot shapes l y x n
            = (if cells_linked shapes labels l y x l
                    (int y + snd (inter_offset n)) (int x + fst (inter_offset n))
               then 1 else 0))
     \<and> (\<forall>l < length shapes. 0 < l \<longrightarrow>
          (\<forall>y < fst (shapes ! l). \<forall>x < snd (shapes ! l). \<forall>n < 4.
             link_gt ! cross_slot shapes l y x n
               = (if cells_linked shapes labels l y x (l - 1)
                       (2 * int y + int (n div 2)) (2 * int x + int (n mod 2))
                  then 1 else 0)))"
proof -
  let ?L = "length shapes"
  from len obtain ll where r: "reshape_labels_by_layer shapes labels = Inr ll"
    using reshape_labels_returns [of shapes labels] by blast
  define fI where "fI = (\<lambda>l. fst (projr (link_gt_layer shapes ll l)))"
  define fC where "fC = (\<lambda>j. snd (projr (link_gt_layer shapes ll (Suc j))))"
  define gI where "gI l = fst (shapes ! l) * snd (shapes ! l) * 8" for l
  define gC where "gC j = fst (shapes ! Suc j) * snd (shapes ! Suc j) * 4" for j
  define I where "I = concat (map fI [0 ..< ?L])"
  define C where "C = concat (map fC [0 ..< ?L - 1])"
  have "map (\<lambda>l. snd (projr (link_gt_layer shapes ll l))) [Suc 0 ..< ?L] = map fC [0 ..< ?L - Suc 0]"
    unfolding fC_def by (rule map_upt_1)
  then have out: "cal_link_gt shapes labels = Inr (I @ C)"
    using cal_link_gt_unfold [OF r] L2
    by (simp add: I_def C_def fI_def)
  have layer: "length (fI l) = gI l \<and> set (fI l) \<subseteq> {0, 1}
      \<and> (\<forall>y < fst (shapes ! l). \<forall>x < snd (shapes ! l). \<forall>n < 8.
           fI l ! ((y * snd (shapes ! l) + x) * 8 + n)
             = (if grid_inter_linked shapes ll l y x n then 1 else 0))" for l
    using link_gt_layer_slots [of shapes ll l] by (auto simp: fI_def gI_def)
  have layerC: "length (fC j) = gC j \<and> set (fC j) \<subseteq> {0, 1}
      \<and> (\<forall>y < fst (shapes ! Suc j). \<forall>x < snd (shapes ! Suc j). \<forall>n < 4.
           fC j ! ((y * snd (shapes ! Suc j) + x) * 4 + n)
             = (if grid_cross_linked shapes ll (Suc j) y x n then 1 else 0))" for j
    using link_gt_layer_slots [of shapes ll "Suc j"] by (auto simp: fC_def gC_def)
  have lenIall: "\<forall>l < ?L. length (fI l) = gI l" using layer by simp
  have lenCall: "\<forall>j < ?L - 1. length (fC j) = gC j" using layerC by simp
  have lenI: "length I = sum_list (map (\<lambda>s. fst s * snd s * 8) shapes)"
  proof -
    have "length I = sum_list (map gI [0 ..< ?L])"
      unfolding I_def by (rule concat_map_upt_length [OF lenIall])
    then show ?thesis
      unfolding gI_def using sum_shapes_upt [of "\<lambda>s. fst s * snd s * 8" shapes] by simp
  qed
  have lenC: "length C = sum_list (map (\<lambda>s. fst s * snd s * 4) (tl shapes))"
  proof -
    have "length C = sum_list (map gC [0 ..< ?L - 1])"
      unfolding C_def by (rule concat_map_upt_length [OF lenCall])
    then show ?thesis
      unfolding gC_def
      using sum_tl_shapes_upt [of "?L - 1" shapes "\<lambda>s. fst s * snd s * 4"] by simp
  qed
  have total: "length (I @ C) = num_links shapes"
    by (simp add: lenI lenC num_links_def)
  have zI: "set (fI l) \<subseteq> {0, 1}" for l using layer [of l] by blast
  have zC: "set (fC j) \<subseteq> {0, 1}" for j using layerC [of j] by blast
  have zo: "set (I @ C) \<subseteq> {0, 1}"
  proof
    fix v assume "v \<in> set (I @ C)"
    then consider l where "v \<in> set (fI l)" | j where "v \<in> set (fC j)"
      by (auto simp: I_def C_def)
    then show "v \<in> {0, 1}"
    proof cases
      case 1
      with zI [of l] show ?thesis by blast
    next
      case 2
      with zC [of j] show ?thesis by blast
    qed
  qed
  have islot: "(I @ C) ! inter_slot shapes l y x n
      = (if cells_linked shapes labels l y x l
              (int y + snd (inter_offset n)) (int x + fst (inter_offset n))
         then 1 else 0)"
    if l: "l < ?L" and y: "y < fst (shapes ! l)" and x: "x < snd (shapes ! l)" and n: "n < 8"
    for l y x n
  proof -
    let ?k = "(y * snd (shapes ! l) + x) * 8 + n"
    have k: "?k < gI l" unfolding gI_def using y x n by (rule slot_index_less)
    have off: "sum_list (map (\<lambda>s. fst s * snd s * 8) (take l shapes)) = sum_list (map gI [0 ..< l])"
      unfolding gI_def using map_nth_upt_take [of l shapes "\<lambda>s. fst s * snd s * 8"] l by simp
    have slot: "inter_slot shapes l y x n = sum_list (map gI [0 ..< l]) + ?k"
      by (simp add: inter_slot_def off)
    have "sum_list (map gI [0 ..< l]) + ?k < length I"
    proof -
      have "length I = sum_list (map gI [0 ..< ?L])"
        unfolding I_def by (rule concat_map_upt_length [OF lenIall])
      with sum_upt_le [OF l, of gI] k show ?thesis by simp
    qed
    then have "(I @ C) ! inter_slot shapes l y x n = I ! (sum_list (map gI [0 ..< l]) + ?k)"
      by (simp add: slot nth_append)
    also have "\<dots> = fI l ! ?k"
      unfolding I_def by (rule concat_map_upt_nth [where g = gI and f = fI, OF lenIall l k])
    also have "\<dots> = (if grid_inter_linked shapes ll l y x n then 1 else 0)"
      using layer [of l] y x n by blast
    also have "\<dots> = (if cells_linked shapes labels l y x l
              (int y + snd (inter_offset n)) (int x + fst (inter_offset n))
         then 1 else 0)"
      by (simp add: grid_inter_linked_eq [OF r l y x n])
    finally show ?thesis .
  qed
  have cslot: "(I @ C) ! cross_slot shapes l y x n
      = (if cells_linked shapes labels l y x (l - 1)
              (2 * int y + int (n div 2)) (2 * int x + int (n mod 2))
         then 1 else 0)"
    if l: "l < ?L" "0 < l" and y: "y < fst (shapes ! l)" and x: "x < snd (shapes ! l)" and n: "n < 4"
    for l y x n
  proof -
    obtain j where j: "l = Suc j" using l(2) by (cases l) auto
    with l have jL: "j < ?L - 1" by simp
    let ?k = "(y * snd (shapes ! l) + x) * 4 + n"
    have k: "?k < gC j" unfolding gC_def using y x n unfolding j by (rule slot_index_less)
    have off: "sum_list (map (\<lambda>s. fst s * snd s * 4) (take j (tl shapes))) = sum_list (map gC [0 ..< j])"
      unfolding gC_def using sum_tl_shapes_upt [of j shapes "\<lambda>s. fst s * snd s * 4"] jL by simp
    have slot: "cross_slot shapes l y x n = length I + (sum_list (map gC [0 ..< j]) + ?k)"
      by (simp add: cross_slot_def off lenI j)
    have "(I @ C) ! cross_slot shapes l y x n = C ! (sum_list (map gC [0 ..< j]) + ?k)"
      by (simp add: slot)
    also have "\<dots> = fC j ! ?k"
      unfolding C_def by (rule concat_map_upt_nth [where g = gC and f = fC, OF lenCall jL k])
    also have "\<dots> = (if grid_cross_linked shapes ll l y x n then 1 else 0)"
      using layerC [of j] y x n unfolding j by blast
    also have "\<dots> = (if cells_linked shapes labels l y x (l - 1)
              (2 * int y + int (n div 2)) (2 * int x + int (n mod 2))
         then 1 else 0)"
      by (simp add: grid_cross_linked_eq [OF r l y x n])
    finally show ?thesis .
  qed
  from out total zo islot cslot show ?thesis by blast
qed

lemma reshape_labels_loop_no_index_error:
  "reshape_labels_loop shapes idx labels \<noteq> Inl IndexError"
  using reshape_labels_loop_error [of shapes idx labels IndexError] by auto

text \<open>
  No run of \<open>cal_link_gt\<close> reads a label grid outside \<open>[0, h) \<times> [0, w)\<close>: in the
  model such a read is \<open>IndexError\<close>, and \<open>cal_link_gt\<close> never ends in it.
\<close>

theorem cal_link_gt_no_index_error: "cal_link_gt shapes labels \<noteq> Inl IndexError"
proof (cases "reshape_labels_by_layer shapes labels")
  case (Inl e)
  then have "cal_link_gt shapes labels = Inl e" by (simp add: cal_link_gt_def)
  moreover from Inl have "e \<noteq> IndexError"
    using reshape_labels_loop_no_index_error [of shapes 0 labels]
    by (auto simp: reshape_labels_by_layer_def)
  ultimately show ?thesis by simp
next
  case (Inr ll)
  from cal_link_gt_unfold [OF Inr] show ?thesis by (simp split: if_splits)
qed

text \<open>
  Claim C8. In a configuration with a single 1x1 layer all eight neighbours of the cell
  are outside the grid and are skipped, but no link ground truth is returned: the list
  of cross-layer arrays is empty and \<open>np.hstack\<close> raises on it, whatever the label of
  the cell is.
\<close>

theorem cal_link_gt_single_layer_raises: "cal_link_gt [(1, 1)] [label] = Inl ValueError"
proof -
  have "reshape_labels_by_layer [(1, 1)] [label] = Inr [[label]]"
    by (simp add: reshape_labels_by_layer_def)
  from cal_link_gt_unfold [OF this] show ?thesis by simp
qed

lemma cal_link_gt_example:
  "cal_link_gt [(1, 2), (1, 1)] [3, 3, 3]
     = Inr [0, 0, 0, 0, 1, 0, 0, 0,  0, 0, 0, 1, 0, 0, 0, 0,  0, 0, 0, 0, 0, 0, 0, 0,  1, 1, 0, 0]"
  by (simp add: cal_link_gt_def reshape_labels_by_layer_def link_gt_layers_def link_gt_layer_def
      link_gt_cell_def link_gt_neighbour_def grid_get_def cube_set_def is_valid_cord_def
      get_inter_layer_neighbours_def get_cross_layer_neighbours_def hstack_def enumerate_eq_zip
      upt_rec Let_def eval_nat_numeral)

text \<open>A first layer of 2x2 cells whose lower left cell carries another label: the
  single cell of the second layer is linked to three of its four children.\<close>

lemma cal_link_gt_children_example:
  "cal_link_gt [(2, 2), (1, 1)] [1, 1, 0, 1, 1]
     = Inr [0, 0, 0, 0, 1, 0, 0, 1,  0, 0, 0, 1, 0, 0, 1, 0,  0, 0, 0, 0, 0, 0, 0, 0,
            1, 1, 0, 0, 0, 0, 0, 0,  0, 0, 0, 0, 0, 0, 0, 0,  1, 1, 0, 1]"
  by (simp add: cal_link_gt_def reshape_labels_by_layer_def link_gt_layers_def link_gt_layer_def
      link_gt_cell_def link_gt_neighbour_def grid_get_def cube_set_def is_valid_cord_def
      get_inter_layer_neighbours_def get_cross_layer_neighbours_def hstack_def enumerate_eq_zip
      upt_rec Let_def eval_nat_numeral)

theorem cal_link_gt_slots_witness:
  "2 \<le> length [(2, 2), (1, 1) :: nat \<times> nat]
   \<and> length [1, 1, 0, 1, 1 :: int] = num_anchors [(2, 2), (1, 1)]
   \<and> (\<exists>link_gt. cal_link_gt [(2, 2), (1, 1)] [1, 1, 0, 1, 1] = Inr link_gt
        \<and> length link_gt = 44
        \<and> link_gt ! 3 = 0 \<and> link_gt ! 4 = 1 \<and> link_gt ! 6 = 0 \<and> link_gt ! 7 = 1
        \<and> link_gt ! 40 = 1 \<and> link_gt ! 41 = 1 \<and> link_gt ! 42 = 0 \<and> link_gt ! 43 = 1)"
proof -
  let ?shapes = "[(2, 2), (1, 1)] :: (nat \<times> nat) list"
  let ?labels = "[1, 1, 0, 1, 1] :: int list"
  have h1: "2 \<le> length ?shapes" by simp
  have h2: "length ?labels = num_anchors ?shapes" by (simp add: num_anchors_def)
  from cal_link_gt_slots [OF h1 h2] obtain link_gt where
    r: "cal_link_gt ?shapes ?labels = Inr link_gt"
    and n: "length link_gt = num_links ?shapes"
    and i: "\<forall>l < length ?shapes. \<forall>y < fst (?shapes ! l). \<forall>x < snd (?shapes ! l). \<forall>n < 8.
          link_gt ! inter_slot ?shapes l y x n
            = (if cells_linked ?shapes ?labels l y x l
                    (int y + snd (inter_offset n)) (int x + fst (inter_offset n))
               then 1 else 0)"
    and x: "\<forall>l < length ?shapes. 0 < l \<longrightarrow>
          (\<forall>y < fst (?shapes ! l). \<forall>x < snd (?shapes ! l). \<forall>n < 4.
             link_gt ! cross_slot ?shapes l y x n
               = (if cells_linked ?shapes ?labels l y x (l - 1)
                       (2 * int y + int (n div 2)) (2 * int x + int (n mod 2))
                  then 1 else 0))"
    by blast
  have inter: "link_gt ! inter_slot ?shapes 0 0 0 n
      = (if cells_linked ?shapes ?labels 0 0 0 0
              (int 0 + snd (inter_offset n)) (int 0 + fst (inter_offset n))
         then 1 else 0)" if "n < 8" for n
    using i that by simp
  have cross: "link_gt ! cross_slot ?shapes 1 0 0 n
      = (if cells_linked ?shapes ?labels 1 0 0 (1 - 1)
              (2 * int 0 + int (n div 2)) (2 * int 0 + int (n mod 2))
         then 1 else 0)" if "n < 4" for n
    using x that by simp
  have s3: "link_gt ! 3 = 0"
    using inter [of 3]
    by (simp add: inter_slot_def inter_offset_def cells_linked_def)
  have s4: "link_gt ! 4 = 1"
    using inter [of 4]
    by (simp add: inter_slot_def inter_offset_def cells_linked_def label_at_def label_offset_def)
  have s6: "link_gt ! 6 = 0"
    using inter [of 6]
    by (simp add: inter_slot_def inter_offset_def cells_linked_def label_at_def label_offset_def)
  have s7: "link_gt ! 7 = 1"
    using inter [of 7]
    by (simp add: inter_slot_def inter_offset_def cells_linked_def label_at_def label_offset_def)
  have s40: "link_gt ! 40 = 1"
    using cross [of 0]
    by (simp add: cross_slot_def cells_linked_def label_at_def label_offset_def)
  have s41: "link_gt ! 41 = 1"
    using cross [of 1]
    by (simp add: cross_slot_def cells_linked_def label_at_def label_offset_def)
  have s42: "link_gt ! 42 = 0"
    using cross [of 2]
    by (simp add: cross_slot_def cells_linked_def label_at_def label_offset_def)
  have s43: "link_gt ! 43 = 1"
    using cross [of 3]
    by (simp add: cross_slot_def cells_linked_def label_at_def label_offset_def)
  from n have "length link_gt = 44" by (simp add: num_links_def)
  with h1 h2 r s3 s4 s6 s7 s40 s41 s42 s43 show ?thesis by blast
qed

subsection \<open>The encoder\<close>

text \<open>
  Claim C10. When \<open>get_all_seglink_gt\<close> returns (the polygon arrays have as many rows,
  there are two or more layers, and there is one default anchor for every cell), the
  labels it returns are the internal match labels mapped to 1 where the label is
  non-negative and to 0 elsewhere: every entry is 0 or 1, and the index of the matched
  polygon is not in the returned labels.
\<close>

theorem get_all_seglink_gt_labels_binary:
  assumes "length xs = length ys"
    and "2 \<le> length (feat_shapes cfg)"
    and "length (default_anchors cfg) = num_anchors (feat_shapes cfg)"
  shows "\<exists>labels seg_gt link_gt internal targets.
      get_all_seglink_gt cfg ext xs ys normalize_flag = Inr (labels, seg_gt, link_gt)
    \<and> match_anchor_to_text_boxes ext (max_height_ratio cfg) (default_anchors cfg) xs ys
        = Inr (internal, targets)
    \<and> labels = map (\<lambda>l. if l \<ge> 0 then 1 else 0) internal
    \<and> set labels \<subseteq> {0, 1}
    \<and> length labels = length (default_anchors cfg)
    \<and> (\<forall>i < length labels. labels ! i = 1 \<longleftrightarrow> internal ! i \<ge> 0)"
proof -
  from match_anchor_returns [OF assms(1)] obtain internal targets where
    m: "match_anchor_to_text_boxes ext (max_height_ratio cfg) (default_anchors cfg) xs ys
        = Inr (internal, targets)"
    by blast
  from match_anchor_result [OF m] have len: "length internal = length (default_anchors cfg)"
    by simp
  with assms(2,3) obtain link_gt where
    l: "cal_link_gt (feat_shapes cfg) internal = Inr link_gt"
    using cal_link_gt_returns_iff [of "feat_shapes cfg" internal] by auto
  define labels where "labels = map (\<lambda>l. if l \<ge> 0 then 1 else 0 :: int) internal"
  from m l obtain seg_gt where
    g: "get_all_seglink_gt cfg ext xs ys normalize_flag = Inr (labels, seg_gt, link_gt)"
    by (simp add: get_all_seglink_gt_def Let_def labels_def)
  have a: "set labels \<subseteq> {0, 1}" by (auto simp: labels_def)
  have b: "\<forall>i < length labels. labels ! i = 1 \<longleftrightarrow> internal ! i \<ge> 0"
    by (simp add: labels_def)
  have c: "length labels = length (default_anchors cfg)" using len by (simp add: labels_def)
  from g m labels_def a b c show ?thesis by blast
qed

theorem get_all_seglink_gt_labels_binary_witness:
  "length [(0, 10, 10, 0), (2, 12, 12, 2) :: row4] = length [(0, 0, 10, 10), (2, 2, 14, 14) :: row4]
   \<and> 2 \<le> length (feat_shapes example_config)
   \<and> length (default_anchors example_config) = num_anchors (feat_shapes example_config)
   \<and> (\<exists>seg_gt link_gt.
        get_all_seglink_gt example_config box_collaborators
          [(0, 10, 10, 0), (2, 12, 12, 2)] [(0, 0, 10, 10), (2, 2, 14, 14)] True
        = Inr ([1, 0], seg_gt, link_gt))"
proof -
  let ?xs = "[(0, 10, 10, 0), (2, 12, 12, 2)] :: row4 list"
  let ?ys = "[(0, 0, 10, 10), (2, 2, 14, 14)] :: row4 list"
  have h1: "length ?xs = length ?ys" by simp
  have h2: "2 \<le> length (feat_shapes example_config)" by (simp add: example_config_def)
  have h3: "length (default_anchors example_config) = num_anchors (feat_shapes example_config)"
    by (simp add: example_config_def num_anchors_def)
  from get_all_seglink_gt_labels_binary [OF h1 h2 h3, of box_collaborators True]
  obtain labels seg_gt link_gt internal targets where
    g: "get_all_seglink_gt example_config box_collaborators ?xs ?ys True = Inr (labels, seg_gt, link_gt)"
    and m: "match_anchor_to_text_boxes box_collaborators (max_height_ratio example_config)
        (default_anchors example_config) ?xs ?ys = Inr (internal, targets)"
    and l: "labels = map (\<lambda>l. if l \<ge> 0 then 1 else 0) internal"
    by blast
  from m have "internal = [1, - 1]"
    by (simp add: example_config_def match_example)
  with l have "labels = [1, 0]" by simp
  with g h1 h2 h3 show ?thesis by blast
qed

subsection \<open>The segment grouper\<close>

lemma bind_run_simps [simp]:
  "bind_run None f = None"
  "bind_run (Some (Inl e)) f = Some (Inl e)"
  "bind_run (Some (Inr x)) f = f x"
  by (simp_all add: bind_run_def)

lemma try_err_simps [simp]:
  "try_err (Inl e) f = Some (Inl e)"
  "try_err (Inr x) f = f x"
  by (simp_all add: try_err_def)

lemma for_each_run_inv:
  assumes "\<And>a s. a \<in> set as \<Longrightarrow> P s \<Longrightarrow> \<exists>s'. body a s = Some (Inr s') \<and> P s'"
    and "P s"
  shows "\<exists>s'. for_each_run body as s = Some (Inr s') \<and> P s'"
  using assms
proof (induction as arbitrary: s)
  case Nil
  then show ?case by simp
next
  case (Cons a as)
  from Cons.prems(1) [of a s] Cons.prems(2) obtain t where t: "body a s = Some (Inr t)" "P t"
    by auto
  have "\<exists>s'. for_each_run body as t = Some (Inr s') \<and> P s'"
    by (rule Cons.IH [OF _ t(2)]) (use Cons.prems(1) in auto)
  with t(1) show ?case by simp
qed

lemma uf_invD:
  assumes "uf_inv V E m"
  shows "map fst m = V" and "distinct V" and "\<And>k. k \<in> set V \<Longrightarrow> 0 \<le> k"
    and "\<And>k p. map_of m k = Some p \<Longrightarrow> p = - 1 \<or> (p \<in> set V \<and> (k, p) \<in> (E \<union> E\<inverse>)\<^sup>*)"
    and "wf {(p, k). map_of m k = Some p \<and> p \<noteq> - 1}"
  using assms unfolding uf_inv_def by blast+

lemma uf_invI:
  assumes "map fst m = V" and "distinct V" and "\<And>k. k \<in> set V \<Longrightarrow> 0 \<le> k"
    and "\<And>k p. map_of m k = Some p \<Longrightarrow> p = - 1 \<or> (p \<in> set V \<and> (k, p) \<in> (E \<union> E\<inverse>)\<^sup>*)"
    and "wf {(p, k). map_of m k = Some p \<and> p \<noteq> - 1}"
  shows "uf_inv V E m"
  using assms unfolding uf_inv_def by blast

lemma uf_inv_keys:
  assumes "uf_inv V E m" and "k \<in> set V"
  shows "\<exists>p. map_of m k = Some p"
proof -
  from assms have "k \<in> fst ` set m" using uf_invD(1) [OF assms(1)] by (metis set_map)
  then have "map_of m k \<noteq> None" by (simp add: map_of_eq_None_iff)
  then show ?thesis by blast
qed

lemma uf_inv_key_mem:
  assumes "uf_inv V E m" and "map_of m k = Some p"
  shows "k \<in> set V"
proof -
  from assms(2) have "(k, p) \<in> set m" by (rule map_of_SomeD)
  then have "k \<in> fst ` set m" by force
  then show ?thesis using uf_invD(1) [OF assms(1)] by (metis set_map)
qed

lemma get_root_loop_terminates:
  assumes inv: "uf_inv V E m"
  shows "map_of m k = Some p \<Longrightarrow>
     \<exists>r. get_root_loop m k p = Some (Inr r) \<and> r \<in> set V \<and> map_of m r = Some (- 1)
        \<and> (k, r) \<in> (E \<union> E\<inverse>)\<^sup>*"
proof -
  note wf = uf_invD(5) [OF inv]
  show "map_of m k = Some p \<Longrightarrow>
     \<exists>r. get_root_loop m k p = Some (Inr r) \<and> r \<in> set V \<and> map_of m r = Some (- 1)
        \<and> (k, r) \<in> (E \<union> E\<inverse>)\<^sup>*"
    using wf
  proof (induction k arbitrary: p rule: wf_induct_rule)
    case (less k)
    from less.prems have kV: "k \<in> set V" by (rule uf_inv_key_mem [OF inv])
    show ?case
    proof (cases "p = - 1")
      case True
      with less.prems kV show ?thesis
        by (subst get_root_loop.simps) auto
    next
      case False
      with uf_invD(4) [OF inv less.prems] have pV: "p \<in> set V" and kp: "(k, p) \<in> (E \<union> E\<inverse>)\<^sup>*"
        by simp_all
      from uf_inv_keys [OF inv pV] obtain p' where p': "map_of m p = Some p'" by blast
      have "(p, k) \<in> {(p, k). map_of m k = Some p \<and> p \<noteq> - 1}"
        using less.prems False by simp
      from less.IH [OF this p'] obtain r where
        r: "get_root_loop m p p' = Some (Inr r)" "r \<in> set V" "map_of m r = Some (- 1)"
           "(p, r) \<in> (E \<union> E\<inverse>)\<^sup>*"
        by blast
      have "get_root_loop m k p = Some (Inr r)"
        by (subst get_root_loop.simps) (simp add: False p' r(1))
      moreover from kp r(4) have "(k, r) \<in> (E \<union> E\<inverse>)\<^sup>*" by (rule rtrancl_trans)
      ultimately show ?thesis using r(2,3) by blast
    qed
  qed
qed

lemma get_root_terminates:
  assumes "uf_inv V E m" and "k \<in> set V"
  shows "\<exists>r. get_root m k = Some (Inr r) \<and> r \<in> set V \<and> map_of m r = Some (- 1)
        \<and> (k, r) \<in> (E \<union> E\<inverse>)\<^sup>*"
proof -
  from uf_inv_keys [OF assms] obtain p where p: "map_of m k = Some p" by blast
  from get_root_loop_terminates [OF assms(1) p] p show ?thesis
    by (simp add: get_root_def)
qed

lemma conn_sym: "(a, b) \<in> (E \<union> E\<inverse>)\<^sup>* \<Longrightarrow> (b, a) \<in> (E \<union> E\<inverse>)\<^sup>*"
proof -
  assume "(a, b) \<in> (E \<union> E\<inverse>)\<^sup>*"
  then have "(b, a) \<in> ((E \<union> E\<inverse>)\<^sup>*)\<inverse>" by simp
  then have "(b, a) \<in> ((E \<union> E\<inverse>)\<inverse>)\<^sup>*" by (simp add: rtrancl_converse)
  moreover have "(E \<union> E\<inverse>)\<inverse> = E \<union> E\<inverse>" by auto
  ultimately show ?thesis by simp
qed

lemma union_mask_inv:
  assumes inv: "uf_inv V E m" and a: "a \<in> set V" and b: "b \<in> set V"
    and ab: "(a, b) \<in> (E \<union> E\<inverse>)\<^sup>*"
  shows "\<exists>m'. union_mask m a b = Some (Inr m') \<and> uf_inv V E m'"
proof -
  from get_root_terminates [OF inv a] obtain r1 where
    r1: "get_root m a = Some (Inr r1)" "r1 \<in> set V" "map_of m r1 = Some (- 1)"
        "(a, r1) \<in> (E \<union> E\<inverse>)\<^sup>*" by blast
  from get_root_terminates [OF inv b] obtain r2 where
    r2: "get_root m b = Some (Inr r2)" "r2 \<in> set V" "map_of m r2 = Some (- 1)"
        "(b, r2) \<in> (E \<union> E\<inverse>)\<^sup>*" by blast
  show ?thesis
  proof (cases "r1 = r2")
    case True
    with r1 r2 inv show ?thesis by (simp add: union_mask_def)
  next
    case False
    let ?m' = "AList.update r1 r2 m"
    have res: "union_mask m a b = Some (Inr ?m')"
      using r1 r2 False by (simp add: union_mask_def)
    have mo: "map_of ?m' = (map_of m)(r1 \<mapsto> r2)" by (rule update_conv')
    note keys = uf_invD(1) [OF inv]
    have k': "map fst ?m' = V"
      using r1(2) keys by (simp add: update_keys)
    from uf_invD(3) [OF inv r2(2)] have r2pos: "r2 \<noteq> - 1" by simp
    have conn12: "(r1, r2) \<in> (E \<union> E\<inverse>)\<^sup>*"
      using conn_sym [OF r1(4)] ab r2(4) by (meson rtrancl_trans)
    have par: "p = - 1 \<or> (p \<in> set V \<and> (k, p) \<in> (E \<union> E\<inverse>)\<^sup>*)"
      if "map_of ?m' k = Some p" for k p
    proof (cases "k = r1")
      case True
      with that have "p = r2" by (simp add: mo)
      with True r2(2) conn12 show ?thesis by simp
    next
      case False
      with that have "map_of m k = Some p" by (simp add: mo)
      then show ?thesis by (rule uf_invD(4) [OF inv])
    qed
    let ?R = "{(p, k). map_of m k = Some p \<and> p \<noteq> - 1}"
    have R': "{(p, k). map_of ?m' k = Some p \<and> p \<noteq> - 1} = insert (r2, r1) ?R"
      using r1(3) r2pos by (auto simp: mo split: if_splits)
    have "(r1, r2) \<notin> ?R\<^sup>*"
    proof
      assume "(r1, r2) \<in> ?R\<^sup>*"
      then show False
      proof (cases rule: rtranclE)
        case base
        with False show False by simp
      next
        case (step y)
        then have "map_of m r2 = Some y" "y \<noteq> - 1" by auto
        with r2(3) show False by simp
      qed
    qed
    moreover note uf_invD(5) [OF inv]
    ultimately have "wf (insert (r2, r1) ?R)" by (simp add: wf_insert)
    with R' have wf': "wf {(p, k). map_of ?m' k = Some p \<and> p \<noteq> - 1}" by simp
    have "uf_inv V E ?m'"
      by (rule uf_invI [OF k' uf_invD(2) [OF inv] uf_invD(3) [OF inv] par wf'])
    with res show ?thesis by blast
  qed
qed

lemma reshape_links_loop_Inr:
  assumes "reshape_links_loop d shapes idx arr = Inr (ls, idx')" and "idx \<le> length arr"
  shows "length ls = length shapes
     \<and> idx' = idx + sum_list (map (\<lambda>s. fst s * snd s * d) shapes)
     \<and> idx' \<le> length arr
     \<and> (\<forall>l < length shapes.
          ls ! l = take (fst (shapes ! l) * snd (shapes ! l) * d)
                     (drop (idx + sum_list (map (\<lambda>s. fst s * snd s * d) (take l shapes))) arr)
          \<and> idx + sum_list (map (\<lambda>s. fst s * snd s * d) (take l shapes))
                + fst (shapes ! l) * snd (shapes ! l) * d \<le> length arr)"
  using assms
proof (induction shapes arbitrary: idx ls)
  case Nil
  then show ?case by simp
next
  case (Cons s shapes)
  let ?n = "fst s * snd s * d"
  from Cons.prems(1) have fit: "length (take ?n (drop idx arr)) = ?n"
    by (simp add: Let_def split: if_splits)
  with Cons.prems(2) have fit': "idx + ?n \<le> length arr" by simp
  from Cons.prems(1) fit obtain rest where
    rest: "reshape_links_loop d shapes (idx + ?n) arr = Inr (rest, idx')"
    and ls: "ls = take ?n (drop idx arr) # rest"
    by (auto simp add: Let_def bind_err_eq_Inr split: if_splits)
  note IH = Cons.IH [OF rest fit']
  show ?case
  proof (intro conjI allI impI)
    show "length ls = length (s # shapes)" using IH ls by simp
    show "idx' = idx + sum_list (map (\<lambda>s. fst s * snd s * d) (s # shapes))"
      using IH by simp
    show "idx' \<le> length arr" using IH by simp
  next
    fix l assume "l < length (s # shapes)"
    then show "ls ! l = take (fst ((s # shapes) ! l) * snd ((s # shapes) ! l) * d)
        (drop (idx + sum_list (map (\<lambda>s. fst s * snd s * d) (take l (s # shapes)))) arr)"
      using IH ls by (cases l) (simp_all add: add.assoc)
  next
    fix l assume "l < length (s # shapes)"
    then show "idx + sum_list (map (\<lambda>s. fst s * snd s * d) (take l (s # shapes)))
        + fst ((s # shapes) ! l) * snd ((s # shapes) ! l) * d \<le> length arr"
      using IH fit' by (cases l) (simp_all add: add.assoc)
  qed
qed

lemma reshape_links_loop_total:
  assumes "idx + sum_list (map (\<lambda>s. fst s * snd s * d) shapes) \<le> length arr"
  shows "\<exists>ls. reshape_links_loop d shapes idx arr
      = Inr (ls, idx + sum_list (map (\<lambda>s. fst s * snd s * d) shapes))"
  using assms
proof (induction shapes arbitrary: idx)
  case Nil
  then show ?case by simp
next
  case (Cons s shapes)
  let ?n = "fst s * snd s * d"
  from Cons.prems have "(idx + ?n) + sum_list (map (\<lambda>s. fst s * snd s * d) shapes) \<le> length arr"
    by simp
  from Cons.IH [OF this] obtain rest where
    "reshape_links_loop d shapes (idx + ?n) arr
      = Inr (rest, idx + ?n + sum_list (map (\<lambda>s. fst s * snd s * d) shapes))"
    by blast
  moreover from Cons.prems have "length (take ?n (drop idx arr)) = ?n" by simp
  ultimately show ?case by (simp add: Let_def add.assoc)
qed

lemma reshape_link_gt_returns:
  assumes "length arr = num_links shapes"
  shows "\<exists>IS CS. reshape_link_gt_by_layer shapes arr = Inr (IS, CS)"
proof -
  let ?a = "sum_list (map (\<lambda>s. fst s * snd s * 8) shapes)"
  let ?b = "sum_list (map (\<lambda>s. fst s * snd s * 4) (tl shapes))"
  from assms have "0 + ?a \<le> length arr" by (simp add: num_links_def)
  from reshape_links_loop_total [OF this] obtain IS where
    i: "reshape_links_loop 8 shapes 0 arr = Inr (IS, ?a)" by auto
  from assms have "?a + ?b \<le> length arr" by (simp add: num_links_def)
  from reshape_links_loop_total [OF this] obtain CS where
    c: "reshape_links_loop 4 (tl shapes) ?a arr = Inr (CS, ?a + ?b)" by auto
  from i c assms show ?thesis
    by (simp add: reshape_link_gt_by_layer_def num_links_def)
qed

lemma reshape_link_gt_nth:
  assumes r: "reshape_link_gt_by_layer shapes arr = Inr (IS, CS)"
    and l: "l < length shapes" and y: "y < fst (shapes ! l)" and x: "x < snd (shapes ! l)"
  shows "n < 8 \<Longrightarrow> IS ! l ! ((y * snd (shapes ! l) + x) * 8 + n) = arr ! inter_slot shapes l y x n"
    and "n < 4 \<Longrightarrow> 0 < l \<Longrightarrow>
      CS ! (l - 1) ! ((y * snd (shapes ! l) + x) * 4 + n) = arr ! cross_slot shapes l y x n"
    and "length (IS ! l) = fst (shapes ! l) * snd (shapes ! l) * 8"
    and "0 < l \<Longrightarrow> length (CS ! (l - 1)) = fst (shapes ! l) * snd (shapes ! l) * 4"
proof -
  let ?a = "sum_list (map (\<lambda>s. fst s * snd s * 8) shapes)"
  from r obtain idx idx' where
    i: "reshape_links_loop 8 shapes 0 arr = Inr (IS, idx)"
    and c: "reshape_links_loop 4 (tl shapes) idx arr = Inr (CS, idx')"
    by (auto simp: reshape_link_gt_by_layer_def bind_err_eq_Inr split: if_splits)
  have I: "length IS = length shapes
     \<and> idx = 0 + sum_list (map (\<lambda>s. fst s * snd s * 8) shapes)
     \<and> idx \<le> length arr
     \<and> (\<forall>l < length shapes.
          IS ! l = take (fst (shapes ! l) * snd (shapes ! l) * 8)
                     (drop (0 + sum_list (map (\<lambda>s. fst s * snd s * 8) (take l shapes))) arr)
          \<and> 0 + sum_list (map (\<lambda>s. fst s * snd s * 8) (take l shapes))
                + fst (shapes ! l) * snd (shapes ! l) * 8 \<le> length arr)"
    by (rule reshape_links_loop_Inr [OF i]) simp
  then have idx: "idx = ?a" and idxle: "idx \<le> length arr" by simp_all
  note C = reshape_links_loop_Inr [OF c idxle]
  let ?w = "snd (shapes ! l)"
  from I l have Il: "IS ! l = take (fst (shapes ! l) * ?w * 8)
        (drop (sum_list (map (\<lambda>s. fst s * snd s * 8) (take l shapes))) arr)"
    and Ib: "sum_list (map (\<lambda>s. fst s * snd s * 8) (take l shapes))
        + fst (shapes ! l) * ?w * 8 \<le> length arr"
    by simp_all
  show "length (IS ! l) = fst (shapes ! l) * ?w * 8"
    using Il Ib by simp
  show "IS ! l ! ((y * ?w + x) * 8 + n) = arr ! inter_slot shapes l y x n" if n: "n < 8"
  proof -
    have "(y * ?w + x) * 8 + n < fst (shapes ! l) * ?w * 8"
      using y x n by (rule slot_index_less)
    with Il Ib show ?thesis by (simp add: inter_slot_def add.assoc)
  qed
  {
    assume pos: "0 < l"
    then obtain j where j: "l = Suc j" by (cases l) auto
    with l have jl: "j < length (tl shapes)" by simp
    then have tlj: "tl shapes ! j = shapes ! l" by (simp add: j nth_tl)
    from C have "\<forall>l < length (tl shapes).
          CS ! l = take (fst (tl shapes ! l) * snd (tl shapes ! l) * 4)
                     (drop (idx + sum_list (map (\<lambda>s. fst s * snd s * 4) (take l (tl shapes)))) arr)
          \<and> idx + sum_list (map (\<lambda>s. fst s * snd s * 4) (take l (tl shapes)))
                + fst (tl shapes ! l) * snd (tl shapes ! l) * 4 \<le> length arr"
      by blast
    from this [rule_format, OF jl, unfolded tlj idx]
    have Cl: "CS ! j = take (fst (shapes ! l) * ?w * 4)
        (drop (?a + sum_list (map (\<lambda>s. fst s * snd s * 4) (take j (tl shapes)))) arr)"
      and Cb: "?a + sum_list (map (\<lambda>s. fst s * snd s * 4) (take j (tl shapes)))
        + fst (shapes ! l) * ?w * 4 \<le> length arr"
      by simp_all
    show "length (CS ! (l - 1)) = fst (shapes ! l) * ?w * 4"
      using Cl Cb by (simp add: j)
    show "CS ! (l - 1) ! ((y * ?w + x) * 4 + n) = arr ! cross_slot shapes l y x n" if n: "n < 4"
    proof -
      have "(y * ?w + x) * 4 + n < fst (shapes ! l) * ?w * 4"
        using y x n by (rule slot_index_less)
      with Cl Cb show ?thesis by (simp add: cross_slot_def add.assoc j)
    qed
  }
qed

lemma valid_segs_mem:
  "int j \<in> set (valid_segs cfg seg_scores)
     \<longleftrightarrow> j < length seg_scores \<and> seg_scores ! j \<ge> seg_confidence_threshold cfg"
  by (auto simp: valid_segs_def)

lemma valid_segs_set:
  "set (valid_segs cfg seg_scores)
     = {int i | i. i < length seg_scores \<and> seg_scores ! i \<ge> seg_confidence_threshold cfg}"
  by (auto simp: valid_segs_def)

lemma valid_segs_distinct: "distinct (valid_segs cfg seg_scores)"
  by (simp add: valid_segs_def distinct_map inj_on_def)

lemma cell_links_subset:
  assumes "l < length (feat_shapes cfg)" "y < fst (feat_shapes cfg ! l)" "x < snd (feat_shapes cfg ! l)"
  shows "set (cell_links cfg seg_scores link_scores l y x)
     \<subseteq> set (qualifying_links cfg seg_scores link_scores)"
  using assms by (fastforce simp: qualifying_links_def)

lemma inter_link_mem:
  assumes "l < length (feat_shapes cfg)" "y < fst (feat_shapes cfg ! l)" "x < snd (feat_shapes cfg ! l)"
    and "seg_scores ! anchor_index (feat_shapes cfg) l y x \<ge> seg_confidence_threshold cfg"
    and "(n, nx, ny) \<in> set (enumerate 0 (get_inter_layer_neighbours (int x) (int y)))"
    and "is_valid_cord nx ny (int (snd (feat_shapes cfg ! l))) (int (fst (feat_shapes cfg ! l)))"
    and "seg_scores ! anchor_index (feat_shapes cfg) l (nat ny) (nat nx) \<ge> seg_confidence_threshold cfg"
    and "link_scores ! inter_slot (feat_shapes cfg) l y x n \<ge> link_confidence_threshold cfg"
  shows "(int (anchor_index (feat_shapes cfg) l y x),
          int (anchor_index (feat_shapes cfg) l (nat ny) (nat nx)))
     \<in> link_edges cfg seg_scores link_scores"
proof -
  let ?p = "(anchor_index (feat_shapes cfg) l y x, anchor_index (feat_shapes cfg) l (nat ny) (nat nx))"
  have "?p \<in> set (inter_links cfg seg_scores link_scores l y x)"
    unfolding inter_links_def Let_def using assms(5-8) by force
  with assms(4) have "?p \<in> set (cell_links cfg seg_scores link_scores l y x)"
    by (simp add: cell_links_def)
  with cell_links_subset [OF assms(1-3)] have "?p \<in> set (qualifying_links cfg seg_scores link_scores)"
    by blast
  then show ?thesis unfolding link_edges_def by force
qed

lemma cross_link_mem:
  assumes "l < length (feat_shapes cfg)" "y < fst (feat_shapes cfg ! l)" "x < snd (feat_shapes cfg ! l)"
    and "0 < l"
    and "seg_scores ! anchor_index (feat_shapes cfg) l y x \<ge> seg_confidence_threshold cfg"
    and "(n, nx, ny) \<in> set (enumerate 0 (get_cross_layer_neighbours (int x) (int y)))"
    and "is_valid_cord nx ny (int (snd (feat_shapes cfg ! (l - 1)))) (int (fst (feat_shapes cfg ! (l - 1))))"
    and "seg_scores ! anchor_index (feat_shapes cfg) (l - 1) (nat ny) (nat nx) \<ge> seg_confidence_threshold cfg"
    and "link_scores ! cross_slot (feat_shapes cfg) l y x n \<ge> link_confidence_threshold cfg"
  shows "(int (anchor_index (feat_shapes cfg) l y x),
          int (anchor_index (feat_shapes cfg) (l - 1) (nat ny) (nat nx)))
     \<in> link_edges cfg seg_scores link_scores"
proof -
  let ?p = "(anchor_index (feat_shapes cfg) l y x, anchor_index (feat_shapes cfg) (l - 1) (nat ny) (nat nx))"
  have "?p \<in> set (cross_links cfg seg_scores link_scores l y x)"
    unfolding cross_links_def Let_def using assms(6-9) by force
  with assms(4,5) have "?p \<in> set (cell_links cfg seg_scores link_scores l y x)"
    by (simp add: cell_links_def)
  with cell_links_subset [OF assms(1-3)] have "?p \<in> set (qualifying_links cfg seg_scores link_scores)"
    by blast
  then show ?thesis unfolding link_edges_def by force
qed

lemma anchor_index_less:
  assumes "l < length shapes" "y < fst (shapes ! l)" "x < snd (shapes ! l)"
  shows "anchor_index shapes l y x < num_anchors shapes"
  using label_offset_le [OF assms(1)] cell_index_less [OF assms(2,3)]
  by (simp add: anchor_index_def)

lemma seg_index_grid:
  assumes r: "reshape_labels_by_layer shapes (map int [0 ..< N]) = Inr SI"
    and l: "l < length shapes" and y: "y < fst (shapes ! l)" and x: "x < snd (shapes ! l)"
  shows "SI ! l ! (y * snd (shapes ! l) + x) = int (anchor_index shapes l y x)"
proof -
  from reshape_labels_length [OF r] have N: "N = num_anchors shapes" by simp
  from reshape_labels_nth [OF r l cell_index_less [OF y x]]
  have "SI ! l ! (y * snd (shapes ! l) + x)
      = map int [0 ..< N] ! (label_offset shapes l + (y * snd (shapes ! l) + x))" .
  also have "\<dots> = int (anchor_index shapes l y x)"
    using anchor_index_less [OF l y x] N by (simp add: anchor_index_def add.assoc)
  finally show ?thesis .
qed

lemma group_neighbour_inv:
  assumes inv: "uf_inv (valid_segs cfg seg_scores) E m"
    and a: "int a \<in> set (valid_segs cfg seg_scores)"
    and cub: "y < h" "x < w" "nidx < d"
    and grid: "is_valid_cord nx ny (int nw) (int nh) \<Longrightarrow>
        ngrid ! (nat ny * nw + nat nx) = int j \<and> j < length seg_scores"
    and edge: "is_valid_cord nx ny (int nw) (int nh) \<Longrightarrow>
        seg_scores ! j \<ge> seg_confidence_threshold cfg \<Longrightarrow>
        link_score ! ((y * w + x) * d + nidx) \<ge> link_confidence_threshold cfg \<Longrightarrow>
        (int a, int j) \<in> E"
  shows "\<exists>m'. group_neighbour cfg seg_scores nh nw ngrid h w d link_score y x (int a) (nidx, nx, ny) m
        = Some (Inr m') \<and> uf_inv (valid_segs cfg seg_scores) E m'"
proof (cases "is_valid_cord nx ny (int nw) (int nh)")
  case False
  with inv show ?thesis by (simp add: group_neighbour_def)
next
  case True
  from grid [OF True] have g: "ngrid ! (nat ny * nw + nat nx) = int j" and j: "j < length seg_scores"
    by simp_all
  have get: "grid_get nh nw ngrid ny nx = Inr (int j)"
    using grid_get_valid [OF True, of ngrid] g by simp
  have vec: "vec_get seg_scores (int j) = Inr (seg_scores ! j)"
    using j by (simp add: vec_get_def)
  have cube: "cube_get h w d link_score y x nidx = Inr (link_score ! ((y * w + x) * d + nidx))"
    using cub by (simp add: cube_get_def)
  show ?thesis
  proof (cases "seg_scores ! j \<ge> seg_confidence_threshold cfg
      \<and> link_score ! ((y * w + x) * d + nidx) \<ge> link_confidence_threshold cfg")
    case False
    with inv True get vec cube show ?thesis
      by (auto simp add: group_neighbour_def)
  next
    case both: True
    then have jV: "int j \<in> set (valid_segs cfg seg_scores)"
      using j by (simp add: valid_segs_mem)
    from edge [OF True] both have "(int a, int j) \<in> E" by simp
    then have "(int a, int j) \<in> (E \<union> E\<inverse>)\<^sup>*" by blast
    from union_mask_inv [OF inv a jV this] obtain m' where
      "union_mask m (int a) (int j) = Some (Inr m')" "uf_inv (valid_segs cfg seg_scores) E m'"
      by blast
    with True both get vec cube show ?thesis
      by (simp add: group_neighbour_def)
  qed
qed

lemma group_cell_inv:
  fixes cfg :: config and seg_scores link_scores :: "real list"
  defines "shapes \<equiv> feat_shapes cfg"
    and "V \<equiv> valid_segs cfg seg_scores"
    and "E \<equiv> link_edges cfg seg_scores link_scores"
  assumes rs: "reshape_labels_by_layer shapes (map int [0 ..< length seg_scores]) = Inr SI"
    and rl: "reshape_link_gt_by_layer shapes link_scores = Inr (IS, CS)"
    and l: "l < length shapes" and y: "y < fst (shapes ! l)" and x: "x < snd (shapes ! l)"
    and inv: "uf_inv V E m"
  shows "\<exists>m'. group_cell cfg seg_scores SI IS CS l y x m = Some (Inr m') \<and> uf_inv V E m'"
proof -
  let ?h = "fst (shapes ! l)" and ?w = "snd (shapes ! l)"
  let ?a = "anchor_index shapes l y x"
  from reshape_labels_length [OF rs] have N: "length seg_scores = num_anchors shapes" by simp
  have aN: "?a < length seg_scores" using anchor_index_less [OF l y x] N by simp
  have get: "grid_get ?h ?w (SI ! l) (int y) (int x) = Inr (int ?a)"
    using y x seg_index_grid [OF rs l y x] by (simp add: grid_get_def)
  have vec: "vec_get seg_scores (int ?a) = Inr (seg_scores ! ?a)"
    using aN by (simp add: vec_get_def)
  show ?thesis
  proof (cases "seg_scores ! ?a \<ge> seg_confidence_threshold cfg")
    case False
    with inv get vec show ?thesis
      by (simp add: group_cell_def Let_def shapes_def)
  next
    case True
    with aN have aV: "int ?a \<in> set V" by (simp add: V_def valid_segs_mem)
    have "\<exists>m1. for_each_run
        (group_neighbour cfg seg_scores ?h ?w (SI ! l) ?h ?w 8 (IS ! l) y x (int ?a))
        (enumerate 0 (get_inter_layer_neighbours (int x) (int y))) m = Some (Inr m1)
        \<and> uf_inv V E m1"
    proof (rule for_each_run_inv [where P = "uf_inv V E", OF _ inv])
      fix nb :: "nat \<times> int \<times> int" and s :: mask
      assume nb: "nb \<in> set (enumerate 0 (get_inter_layer_neighbours (int x) (int y)))"
        and s: "uf_inv V E s"
      obtain nidx nx ny where p: "nb = (nidx, nx, ny)" by (cases nb)
      have "length (get_inter_layer_neighbours (int x) (int y)) = 8"
        by (simp add: get_inter_layer_neighbours_def)
      with nb p have n8: "nidx < 8"
        by (simp add: in_set_enumerate_eq)
      let ?j = "anchor_index shapes l (nat ny) (nat nx)"
      have grid: "SI ! l ! (nat ny * ?w + nat nx) = int ?j \<and> ?j < length seg_scores"
        if v: "is_valid_cord nx ny (int ?w) (int ?h)"
      proof -
        from v have b: "nat ny < ?h" "nat nx < ?w" by (auto simp: is_valid_cord_def)
        from seg_index_grid [OF rs l b] anchor_index_less [OF l b] N show ?thesis by simp
      qed
      have edge: "(int ?a, int ?j) \<in> E"
        if "is_valid_cord nx ny (int ?w) (int ?h)"
          and "seg_scores ! ?j \<ge> seg_confidence_threshold cfg"
          and "IS ! l ! ((y * ?w + x) * 8 + nidx) \<ge> link_confidence_threshold cfg"
        unfolding E_def shapes_def
        by (rule inter_link_mem)
          (use that l y x True nb p reshape_link_gt_nth(1) [OF rl l y x n8] in
            \<open>simp_all add: shapes_def\<close>)
      from group_neighbour_inv [OF s [unfolded V_def] aV [unfolded V_def] y x n8 grid edge]
      show "\<exists>s'. group_neighbour cfg seg_scores ?h ?w (SI ! l) ?h ?w 8 (IS ! l) y x (int ?a) nb s
          = Some (Inr s') \<and> uf_inv V E s'"
        by (simp add: p V_def)
    qed
    then obtain m1 where m1: "for_each_run
        (group_neighbour cfg seg_scores ?h ?w (SI ! l) ?h ?w 8 (IS ! l) y x (int ?a))
        (enumerate 0 (get_inter_layer_neighbours (int x) (int y))) m = Some (Inr m1)"
      and inv1: "uf_inv V E m1" by blast
    show ?thesis
    proof (cases "0 < l")
      case False
      with True get vec m1 inv1 show ?thesis
        by (simp add: group_cell_def Let_def shapes_def)
    next
      case pos: True
      let ?ph = "fst (shapes ! (l - 1))" and ?pw = "snd (shapes ! (l - 1))"
      from l have pl: "l - 1 < length shapes" by simp
      have "\<exists>m2. for_each_run
          (group_neighbour cfg seg_scores ?ph ?pw (SI ! (l - 1)) ?h ?w 4 (CS ! (l - 1)) y x (int ?a))
          (enumerate 0 (get_cross_layer_neighbours (int x) (int y))) m1 = Some (Inr m2)
          \<and> uf_inv V E m2"
      proof (rule for_each_run_inv [where P = "uf_inv V E", OF _ inv1])
        fix nb :: "nat \<times> int \<times> int" and s :: mask
        assume nb: "nb \<in> set (enumerate 0 (get_cross_layer_neighbours (int x) (int y)))"
          and s: "uf_inv V E s"
        obtain nidx nx ny where p: "nb = (nidx, nx, ny)" by (cases nb)
        have "length (get_cross_layer_neighbours (int x) (int y)) = 4"
          by (simp add: get_cross_layer_neighbours_def)
        with nb p have n4: "nidx < 4"
          by (simp add: in_set_enumerate_eq)
        let ?j = "anchor_index shapes (l - 1) (nat ny) (nat nx)"
        have grid: "SI ! (l - 1) ! (nat ny * ?pw + nat nx) = int ?j \<and> ?j < length seg_scores"
          if v: "is_valid_cord nx ny (int ?pw) (int ?ph)"
        proof -
          from v have b: "nat ny < ?ph" "nat nx < ?pw" by (auto simp: is_valid_cord_def)
          from seg_index_grid [OF rs pl b] anchor_index_less [OF pl b] N show ?thesis by simp
        qed
        have edge: "(int ?a, int ?j) \<in> E"
          if "is_valid_cord nx ny (int ?pw) (int ?ph)"
            and "seg_scores ! ?j \<ge> seg_confidence_threshold cfg"
            and "CS ! (l - 1) ! ((y * ?w + x) * 4 + nidx) \<ge> link_confidence_threshold cfg"
          unfolding E_def shapes_def
          by (rule cross_link_mem)
            (use that l y x pos True nb p reshape_link_gt_nth(2) [OF rl l y x n4 pos] in
              \<open>simp_all add: shapes_def\<close>)
        from group_neighbour_inv [OF s [unfolded V_def] aV [unfolded V_def] y x n4 grid edge]
        show "\<exists>s'. group_neighbour cfg seg_scores ?ph ?pw (SI ! (l - 1)) ?h ?w 4 (CS ! (l - 1)) y x (int ?a) nb s
            = Some (Inr s') \<and> uf_inv V E s'"
          by (simp add: p V_def)
      qed
      then obtain m2 where "for_each_run
          (group_neighbour cfg seg_scores ?ph ?pw (SI ! (l - 1)) ?h ?w 4 (CS ! (l - 1)) y x (int ?a))
          (enumerate 0 (get_cross_layer_neighbours (int x) (int y))) m1 = Some (Inr m2)"
        and "uf_inv V E m2" by blast
      with True pos get vec m1 show ?thesis
        by (auto simp add: group_cell_def Let_def shapes_def)
    qed
  qed
qed

lemma uf_inv_init: "uf_inv (valid_segs cfg seg_scores) E (map (\<lambda>s. (s, - 1)) (valid_segs cfg seg_scores))"
proof (rule uf_invI)
  let ?V = "valid_segs cfg seg_scores"
  let ?m = "map (\<lambda>s. (s, - 1 :: int)) ?V"
  show "map fst ?m = ?V" by (simp add: comp_def)
  show "distinct ?V" by (rule valid_segs_distinct)
  show "0 \<le> k" if "k \<in> set ?V" for k using that by (auto simp: valid_segs_def)
  have par: "p = - 1" if "map_of ?m k = Some p" for k p
    using map_of_SomeD [OF that] by auto
  then show "p = - 1 \<or> (p \<in> set ?V \<and> (k, p) \<in> (E \<union> E\<inverse>)\<^sup>*)" if "map_of ?m k = Some p" for k p
    using that by blast
  have e: "{(p, k). map_of ?m k = Some p \<and> p \<noteq> - 1} = {}" using par by blast
  show "wf {(p, k). map_of ?m k = Some p \<and> p \<noteq> - 1}" unfolding e by simp
qed

lemma group_loops_inv:
  fixes cfg :: config and seg_scores link_scores :: "real list"
  defines "shapes \<equiv> feat_shapes cfg"
    and "V \<equiv> valid_segs cfg seg_scores"
    and "E \<equiv> link_edges cfg seg_scores link_scores"
  assumes rs: "reshape_labels_by_layer shapes (map int [0 ..< length seg_scores]) = Inr SI"
    and rl: "reshape_link_gt_by_layer shapes link_scores = Inr (IS, CS)"
    and inv: "uf_inv V E m"
  shows "\<exists>m'. for_each_run (\<lambda>layer_index.
               for_each_run (\<lambda>y.
                 for_each_run (group_cell cfg seg_scores SI IS CS layer_index y)
                   [0 ..< snd (shapes ! layer_index)])
                 [0 ..< fst (shapes ! layer_index)])
             [0 ..< length shapes] m = Some (Inr m') \<and> uf_inv V E m'"
proof (rule for_each_run_inv [where P = "uf_inv V E", OF _ inv])
  fix l :: nat and s :: mask
  assume l: "l \<in> set [0 ..< length shapes]" and s: "uf_inv V E s"
  then have l': "l < length shapes" by simp
  show "\<exists>s'. for_each_run (\<lambda>y. for_each_run (group_cell cfg seg_scores SI IS CS l y)
          [0 ..< snd (shapes ! l)]) [0 ..< fst (shapes ! l)] s = Some (Inr s') \<and> uf_inv V E s'"
  proof (rule for_each_run_inv [where P = "uf_inv V E", OF _ s])
    fix y :: nat and t :: mask
    assume y: "y \<in> set [0 ..< fst (shapes ! l)]" and t: "uf_inv V E t"
    then have y': "y < fst (shapes ! l)" by simp
    show "\<exists>s'. for_each_run (group_cell cfg seg_scores SI IS CS l y)
          [0 ..< snd (shapes ! l)] t = Some (Inr s') \<and> uf_inv V E s'"
    proof (rule for_each_run_inv [where P = "uf_inv V E", OF _ t])
      fix x :: nat and u :: mask
      assume x: "x \<in> set [0 ..< snd (shapes ! l)]" and u: "uf_inv V E u"
      then have x': "x < snd (shapes ! l)" by simp
      show "\<exists>s'. group_cell cfg seg_scores SI IS CS l y x u = Some (Inr s') \<and> uf_inv V E s'"
        unfolding V_def E_def
        by (rule group_cell_inv [OF rs [unfolded shapes_def] rl [unfolded shapes_def]
              l' [unfolded shapes_def] y' [unfolded shapes_def] x' [unfolded shapes_def]
              u [unfolded V_def E_def]])
    qed
  qed
qed

lemma to_list_step_result:
  assumes g: "get_root m k = Some (Inr r)"
  shows "\<exists>result'. to_list_step m k result = Some (Inr result')
     \<and> map_of result' = (map_of result)(r \<mapsto> (case map_of result r of None \<Rightarrow> [] | Some ms \<Rightarrow> ms) @ [k])
     \<and> (distinct (map fst result) \<longrightarrow> distinct (map fst result'))"
proof (cases "map_of result r")
  case None
  then have "to_list_step m k result
      = Some (Inr (AList.update r ([] @ [k]) (AList.update r [] result)))"
    by (simp add: to_list_step_def g Let_def update_conv')
  moreover have "map_of (AList.update r ([] @ [k]) (AList.update r [] result))
      = (map_of result)(r \<mapsto> [] @ [k])"
    by (simp add: update_conv')
  ultimately show ?thesis using None by (simp add: distinct_update)
next
  case (Some ms)
  then have "to_list_step m k result = Some (Inr (AList.update r (ms @ [k]) result))"
    by (simp add: to_list_step_def g Let_def)
  moreover have "map_of (AList.update r (ms @ [k]) result) = (map_of result)(r \<mapsto> ms @ [k])"
    by (simp add: update_conv')
  ultimately show ?thesis using Some by (simp add: distinct_update)
qed

lemma to_list_first_loop:
  assumes roots: "\<And>k. k \<in> set ks \<Longrightarrow> get_root m k = Some (Inr (rt k))"
    and J: "distinct (map fst result)"
      "\<And>r. map_of result r = (if r \<in> rt ` set seen then Some (filter (\<lambda>k. rt k = r) seen) else None)"
  shows "\<exists>result'. for_each_run (to_list_step m) ks result = Some (Inr result')
     \<and> distinct (map fst result')
     \<and> (\<forall>r. map_of result' r
          = (if r \<in> rt ` set (seen @ ks) then Some (filter (\<lambda>k. rt k = r) (seen @ ks)) else None))"
  using assms
proof (induction ks arbitrary: result seen)
  case Nil
  then show ?case by simp
next
  case (Cons k ks)
  from Cons.prems(1) [of k] have g: "get_root m k = Some (Inr (rt k))" by simp
  from to_list_step_result [OF g, of result] Cons.prems(2) obtain result1 where
    s: "to_list_step m k result = Some (Inr result1)"
    and mo: "map_of result1 = (map_of result)(rt k \<mapsto>
        (case map_of result (rt k) of None \<Rightarrow> [] | Some ms \<Rightarrow> ms) @ [k])"
    and d: "distinct (map fst result1)"
    by blast
  have J1: "map_of result1 r
      = (if r \<in> rt ` set (seen @ [k]) then Some (filter (\<lambda>k. rt k = r) (seen @ [k])) else None)"
    for r
  proof (cases "r = rt k")
    case True
    show ?thesis
    proof (cases "rt k \<in> rt ` set seen")
      case in_seen: True
      then show ?thesis using True by (simp add: mo Cons.prems(3))
    next
      case False
      then have "filter (\<lambda>j. rt j = rt k) seen = []"
        unfolding filter_empty_conv by (metis imageI)
      with False True show ?thesis by (simp add: mo Cons.prems(3))
    qed
  next
    case False
    then show ?thesis by (auto simp add: mo Cons.prems(3))
  qed
  have eq: "(seen @ [k]) @ ks = seen @ k # ks" by simp
  have "\<exists>result'. for_each_run (to_list_step m) ks result1 = Some (Inr result')
     \<and> distinct (map fst result')
     \<and> (\<forall>r. map_of result' r
          = (if r \<in> rt ` set ((seen @ [k]) @ ks)
             then Some (filter (\<lambda>k. rt k = r) ((seen @ [k]) @ ks)) else None))"
    by (rule Cons.IH [OF _ d J1]) (use Cons.prems(1) in simp)
  then obtain result' where
    a: "for_each_run (to_list_step m) ks result1 = Some (Inr result')"
    and b: "distinct (map fst result')"
    and c: "\<forall>r. map_of result' r
          = (if r \<in> rt ` set (seen @ k # ks)
             then Some (filter (\<lambda>k. rt k = r) (seen @ k # ks)) else None)"
    unfolding eq by blast
  from s a have "for_each_run (to_list_step m) (k # ks) result = Some (Inr result')" by simp
  with b c show ?case by blast
qed

lemma to_list_second_loop:
  assumes "\<And>r. r \<in> set rs \<Longrightarrow> map_of result r = Some (f r)"
  shows "for_each_run (\<lambda>root groups.
           case map_of result root of
             None \<Rightarrow> Some (Inl KeyError)
           | Some members \<Rightarrow> Some (Inr (groups @ [members]))) rs gs
     = Some (Inr (gs @ map f rs))"
  using assms by (induction rs arbitrary: gs) simp_all

lemma distinct_concat_classes:
  assumes "distinct ks" "distinct rs"
  shows "distinct (concat (map (\<lambda>r. filter (\<lambda>k. f k = r) ks) rs))"
  using assms(2)
proof (induction rs)
  case Nil
  show ?case by simp
next
  case (Cons r rs)
  then have "distinct (concat (map (\<lambda>r. filter (\<lambda>k. f k = r) ks) rs))" by simp
  moreover have "distinct (filter (\<lambda>k. f k = r) ks)" using assms(1) by simp
  moreover have "set (filter (\<lambda>k. f k = r) ks)
      \<inter> set (concat (map (\<lambda>r. filter (\<lambda>k. f k = r) ks) rs)) = {}"
    using Cons.prems by auto
  ultimately show ?case by simp
qed

lemma filter_eq_singleton:
  assumes "distinct ks" "k \<in> set ks"
  shows "filter (\<lambda>j. j = k) ks = [k]"
  using assms
proof (induction ks)
  case Nil
  then show ?case by simp
next
  case (Cons a ks)
  show ?case
  proof (cases "a = k")
    case True
    with Cons.prems have "k \<notin> set ks" by simp
    then have "filter (\<lambda>j. j = k) ks = []" by (auto simp: filter_empty_conv)
    with True show ?thesis by simp
  next
    case False
    with Cons show ?thesis by simp
  qed
qed

lemma isolated_conn:
  assumes "\<forall>(a, b) \<in> E. a \<noteq> k \<and> b \<noteq> k" and "(k, j) \<in> (E \<union> E\<inverse>)\<^sup>*"
  shows "j = k"
  using assms(2)
proof (cases rule: converse_rtranclE)
  case base
  then show ?thesis by simp
next
  case (step z)
  then have "(k, z) \<in> E \<or> (z, k) \<in> E" by auto
  with assms(1) show ?thesis by auto
qed

lemma to_list_groups:
  assumes inv: "uf_inv V E m"
    and ord: "\<forall>ks. distinct ks \<longrightarrow> distinct (dict_order ks) \<and> set (dict_order ks) = set ks"
  shows "\<exists>groups. to_list dict_order m = Some (Inr groups)
     \<and> distinct (concat groups) \<and> [] \<notin> set groups \<and> set (concat groups) = set V
     \<and> (\<forall>k \<in> set V. (\<forall>(a, b) \<in> E. a \<noteq> k \<and> b \<noteq> k) \<longrightarrow> [k] \<in> set groups)"
proof -
  define K where "K = dict_order (map fst m)"
  from uf_invD(1,2) [OF inv] ord have K: "distinct K" "set K = set V"
    by (simp_all add: K_def)
  define rt where "rt = (\<lambda>k. projr (the (get_root m k)))"
  have root: "get_root m k = Some (Inr (rt k)) \<and> (k, rt k) \<in> (E \<union> E\<inverse>)\<^sup>*" if "k \<in> set K" for k
  proof -
    from that K have "k \<in> set V" by simp
    from get_root_terminates [OF inv this] show ?thesis by (auto simp: rt_def)
  qed
  have "\<exists>result. for_each_run (to_list_step m) K [] = Some (Inr result)
     \<and> distinct (map fst result)
     \<and> (\<forall>r. map_of result r
          = (if r \<in> rt ` set ([] @ K) then Some (filter (\<lambda>k. rt k = r) ([] @ K)) else None))"
    by (rule to_list_first_loop) (simp_all add: root)
  then obtain result where
    first: "for_each_run (to_list_step m) K [] = Some (Inr result)"
    and dres: "distinct (map fst result)"
    and mres: "\<And>r. map_of result r
          = (if r \<in> rt ` set K then Some (filter (\<lambda>k. rt k = r) K) else None)"
    by auto
  define RS where "RS = dict_order (map fst result)"
  from dres ord have RS: "distinct RS" "set RS = set (map fst result)"
    by (simp_all add: RS_def)
  have keys: "set (map fst result) = rt ` set K"
  proof -
    have "r \<in> set (map fst result) \<longleftrightarrow> r \<in> rt ` set K" for r
      using mres [of r] map_of_eq_None_iff [of result r] by (auto split: if_splits)
    then show ?thesis by blast
  qed
  define groups where "groups = map (\<lambda>r. filter (\<lambda>k. rt k = r) K) RS"
  have second: "for_each_run (\<lambda>root groups.
           case map_of result root of
             None \<Rightarrow> Some (Inl KeyError)
           | Some members \<Rightarrow> Some (Inr (groups @ [members]))) RS []
     = Some (Inr ([] @ map (\<lambda>r. filter (\<lambda>k. rt k = r) K) RS))"
    by (rule to_list_second_loop) (use RS keys mres in auto)
  have res: "to_list dict_order m = Some (Inr groups)"
    using first second by (simp add: to_list_def K_def [symmetric] RS_def [symmetric] groups_def)
  have d: "distinct (concat groups)"
    unfolding groups_def by (rule distinct_concat_classes [OF K(1) RS(1)])
  have ne: "[] \<notin> set groups"
  proof
    assume "[] \<in> set groups"
    then obtain r where r: "r \<in> set RS" "filter (\<lambda>k. rt k = r) K = []"
      by (auto simp: groups_def)
    from r(1) RS keys obtain k where "k \<in> set K" "rt k = r" by auto
    with r(2) show False by (auto simp: filter_empty_conv)
  qed
  have all: "set (concat groups) = set V"
  proof -
    have "set (concat groups) = {k \<in> set K. rt k \<in> set RS}"
      by (auto simp: groups_def)
    also have "\<dots> = set K" using RS keys by auto
    finally show ?thesis using K by simp
  qed
  have single: "[k] \<in> set groups" if k: "k \<in> set V" and iso: "\<forall>(a, b) \<in> E. a \<noteq> k \<and> b \<noteq> k" for k
  proof -
    from k K have kK: "k \<in> set K" by simp
    have same: "j = k" if j: "j \<in> set K" "rt j = rt k" for j
    proof -
      from root [OF j(1)] root [OF kK] j(2) have "(j, rt k) \<in> (E \<union> E\<inverse>)\<^sup>*" "(k, rt k) \<in> (E \<union> E\<inverse>)\<^sup>*"
        by simp_all
      then have "(k, j) \<in> (E \<union> E\<inverse>)\<^sup>*"
        using conn_sym [of j "rt k" E] by (meson rtrancl_trans)
      with iso show ?thesis by (rule isolated_conn)
    qed
    have "filter (\<lambda>j. rt j = rt k) K = filter (\<lambda>j. j = k) K"
      by (rule filter_cong) (use same in auto)
    also have "\<dots> = [k]" by (rule filter_eq_singleton [OF K(1) kK])
    finally have "filter (\<lambda>j. rt j = rt k) K = [k]" .
    moreover have "rt k \<in> set RS" using RS keys kK by auto
    ultimately show ?thesis unfolding groups_def by force
  qed
  from res d ne all single show ?thesis by blast
qed

lemma group_segs_to_list:
  assumes N: "length seg_scores = num_anchors (feat_shapes cfg)"
    and M: "length link_scores = num_links (feat_shapes cfg)"
  shows "\<exists>m'. group_segs dict_order cfg seg_scores link_scores = to_list dict_order m'
     \<and> uf_inv (valid_segs cfg seg_scores) (link_edges cfg seg_scores link_scores) m'"
proof -
  let ?shapes = "feat_shapes cfg"
  let ?V = "valid_segs cfg seg_scores"
  from N obtain SI where rs: "reshape_labels_by_layer ?shapes (map int [0 ..< length seg_scores]) = Inr SI"
    using reshape_labels_returns [of ?shapes "map int [0 ..< length seg_scores]"] by auto
  from reshape_link_gt_returns [OF M] obtain IS CS where
    rl: "reshape_link_gt_by_layer ?shapes link_scores = Inr (IS, CS)" by blast
  from group_loops_inv [OF rs rl uf_inv_init] obtain m' where
    loops: "for_each_run (\<lambda>layer_index.
               for_each_run (\<lambda>y.
                 for_each_run (group_cell cfg seg_scores SI IS CS layer_index y)
                   [0 ..< snd (?shapes ! layer_index)])
                 [0 ..< fst (?shapes ! layer_index)])
             [0 ..< length ?shapes] (map (\<lambda>s. (s, - 1)) ?V) = Some (Inr m')"
    and inv: "uf_inv ?V (link_edges cfg seg_scores link_scores) m'"
    by blast
  have "group_segs dict_order cfg seg_scores link_scores = to_list dict_order m'"
    by (simp add: group_segs_def Let_def rs rl loops)
  with inv show ?thesis by blast
qed

lemma isolated_in_link_edges:
  assumes "\<forall>(a, b) \<in> set (qualifying_links cfg seg_scores link_scores). a \<noteq> i \<and> b \<noteq> i"
  shows "\<forall>(a, b) \<in> link_edges cfg seg_scores link_scores. a \<noteq> int i \<and> b \<noteq> int i"
  using assms by (auto simp: link_edges_def)

text \<open>
  Claim C6. When there is one segment score for every anchor and one link score for
  every link slot, and whatever the order in which dictionaries are iterated,
  \<open>group_segs\<close> returns, and the groups it returns partition the anchors whose score
  reaches the segment threshold: no index occurs twice in the groups, no group is empty,
  the indices that occur are exactly those whose score reaches the threshold, and an
  anchor of that kind that is an endpoint of no qualifying link is a group of its own.
\<close>

theorem group_segs_partition:
  assumes N: "length seg_scores = num_anchors (feat_shapes cfg)"
    and M: "length link_scores = num_links (feat_shapes cfg)"
    and ord: "\<forall>ks. distinct ks \<longrightarrow> distinct (dict_order ks) \<and> set (dict_order ks) = set ks"
  shows "\<exists>groups. group_segs dict_order cfg seg_scores link_scores = Some (Inr groups)
     \<and> distinct (concat groups) \<and> [] \<notin> set groups
     \<and> set (concat groups)
         = {int i | i. i < length seg_scores \<and> seg_scores ! i \<ge> seg_confidence_threshold cfg}
     \<and> (\<forall>i < length seg_scores.
          seg_scores ! i \<ge> seg_confidence_threshold cfg
          \<and> (\<forall>(a, b) \<in> set (qualifying_links cfg seg_scores link_scores). a \<noteq> i \<and> b \<noteq> i)
          \<longrightarrow> [int i] \<in> set groups)"
proof -
  let ?V = "valid_segs cfg seg_scores"
  let ?E = "link_edges cfg seg_scores link_scores"
  from group_segs_to_list [OF N M] obtain m' where
    run: "group_segs dict_order cfg seg_scores link_scores = to_list dict_order m'"
    and inv: "uf_inv ?V ?E m'"
    by blast
  from to_list_groups [OF inv ord] obtain groups where
    g: "to_list dict_order m' = Some (Inr groups)"
    and d: "distinct (concat groups)" and ne: "[] \<notin> set groups"
    and all: "set (concat groups) = set ?V"
    and single: "\<forall>k \<in> set ?V. (\<forall>(a, b) \<in> ?E. a \<noteq> k \<and> b \<noteq> k) \<longrightarrow> [k] \<in> set groups"
    by blast
  have s: "[int i] \<in> set groups"
    if i: "i < length seg_scores" "seg_scores ! i \<ge> seg_confidence_threshold cfg"
      and iso: "\<forall>(a, b) \<in> set (qualifying_links cfg seg_scores link_scores). a \<noteq> i \<and> b \<noteq> i"
    for i
  proof -
    from i have "int i \<in> set ?V" by (simp add: valid_segs_mem)
    with isolated_in_link_edges [OF iso] single show ?thesis by blast
  qed
  from run g d ne all s show ?thesis
    by (simp add: valid_segs_set)
qed

lemma group_segs_example:
  "group_segs rev grouping_config [9 / 10, 4 / 5, 7 / 10]
     [0, 0, 0, 0, 9 / 10, 0, 0, 0,  0, 0, 0, 0, 0, 0, 0, 0,  0, 0, 0, 0, 0, 0, 0, 0,  0, 0, 0, 0]
   = Some (Inr [[1, 0], [2]])"
  by code_simp

lemma qualifying_links_example:
  "qualifying_links grouping_config [9 / 10, 4 / 5, 7 / 10]
     [0, 0, 0, 0, 9 / 10, 0, 0, 0,  0, 0, 0, 0, 0, 0, 0, 0,  0, 0, 0, 0, 0, 0, 0, 0,  0, 0, 0, 0]
   = [(0, 1)]"
  by code_simp

theorem group_segs_partition_witness:
  "length [9 / 10, 4 / 5, 7 / 10 :: real] = num_anchors (feat_shapes grouping_config)
   \<and> length [0, 0, 0, 0, 9 / 10, 0, 0, 0,  0, 0, 0, 0, 0, 0, 0, 0,  0, 0, 0, 0, 0, 0, 0, 0,
              0, 0, 0, 0 :: real] = num_links (feat_shapes grouping_config)
   \<and> (\<exists>groups. group_segs rev grouping_config [9 / 10, 4 / 5, 7 / 10]
          [0, 0, 0, 0, 9 / 10, 0, 0, 0,  0, 0, 0, 0, 0, 0, 0, 0,  0, 0, 0, 0, 0, 0, 0, 0,  0, 0, 0, 0]
          = Some (Inr groups)
        \<and> distinct (concat groups) \<and> [] \<notin> set groups \<and> [2] \<in> set groups)"
proof -
  let ?seg = "[9 / 10, 4 / 5, 7 / 10] :: real list"
  let ?link = "[0, 0, 0, 0, 9 / 10, 0, 0, 0,  0, 0, 0, 0, 0, 0, 0, 0,  0, 0, 0, 0, 0, 0, 0, 0,
                0, 0, 0, 0] :: real list"
  have h1: "length ?seg = num_anchors (feat_shapes grouping_config)"
    by (simp add: grouping_config_def num_anchors_def)
  have h2: "length ?link = num_links (feat_shapes grouping_config)"
    by (simp add: grouping_config_def num_links_def)
  have h3: "\<forall>ks :: int list. distinct ks \<longrightarrow> distinct (rev ks) \<and> set (rev ks) = set ks"
    by simp
  from group_segs_partition [OF h1 h2 h3] obtain groups where
    g: "group_segs rev grouping_config ?seg ?link = Some (Inr groups)"
    and d: "distinct (concat groups)" and ne: "[] \<notin> set groups"
    and s: "\<forall>i < length ?seg.
          ?seg ! i \<ge> seg_confidence_threshold grouping_config
          \<and> (\<forall>(a, b) \<in> set (qualifying_links grouping_config ?seg ?link). a \<noteq> i \<and> b \<noteq> i)
          \<longrightarrow> [int i] \<in> set groups"
    by blast
  have "(2::nat) < length ?seg" by simp
  moreover have "?seg ! 2 \<ge> seg_confidence_threshold grouping_config"
    by (simp add: grouping_config_def example_config_def)
  moreover have "\<forall>(a, b) \<in> set (qualifying_links grouping_config ?seg ?link). a \<noteq> 2 \<and> b \<noteq> 2"
    by (simp add: qualifying_links_example)
  ultimately have "[int 2] \<in> set groups" using s by blast
  with g d ne h1 h2 show ?thesis by simp
qed

subsection \<open>From scores to bounding boxes\<close>

lemma combine_segs_error: "combine_segs segs = Inl e \<Longrightarrow> e = AssertionError"
  by (auto simp: combine_segs_def Let_def split: if_splits prod.splits)

lemma gather_rows:
  assumes "\<forall>idx \<in> set grp. 0 \<le> idx \<and> idx < int (length segs)"
  shows "for_each (\<lambda>idx rows. bind_err (vec_get segs idx) (\<lambda>row. Inr (rows @ [row]))) grp rows0
     = Inr (rows0 @ map (\<lambda>idx. segs ! nat idx) grp)"
  using assms by (induction grp arbitrary: rows0) (simp_all add: vec_get_def)

lemma seglink_loop_singleton:
  assumes "g \<in> set groups" and "length g = 1"
    and "\<forall>idx \<in> set (concat groups). 0 \<le> idx \<and> idx < int (length segs)"
  shows "for_each_run (\<lambda>group bboxes.
           try_err (for_each (\<lambda>idx rows. bind_err (vec_get segs idx) (\<lambda>row. Inr (rows @ [row])))
                      group []) (\<lambda>group.
           try_err (combine_segs group) (\<lambda>bbox. Some (Inr (bboxes @ [bbox])))))
         groups bboxes = Some (Inl AssertionError)"
  using assms
proof (induction groups arbitrary: bboxes)
  case Nil
  then show ?case by simp
next
  case (Cons a groups)
  from Cons.prems(3) have rows: "for_each (\<lambda>idx rows. bind_err (vec_get segs idx) (\<lambda>row. Inr (rows @ [row]))) a []
     = Inr ([] @ map (\<lambda>idx. segs ! nat idx) a)"
    by (intro gather_rows) simp
  show ?case
  proof (cases "combine_segs (map (\<lambda>idx. segs ! nat idx) a)")
    case (Inl e)
    with combine_segs_error [OF Inl] rows show ?thesis by simp
  next
    case (Inr bbox)
    have "a \<noteq> g"
    proof
      assume "a = g"
      with Cons.prems(2) obtain idx where "a = [idx]" by (cases a) auto
      then have "combine_segs (map (\<lambda>idx. segs ! nat idx) a) = Inl AssertionError"
        by (simp add: combine_segs_def max_dist_search_def seg_proj_points_def Let_def)
      with Inr show False by simp
    qed
    with Cons.prems(1) have "g \<in> set groups" by simp
    from Cons.IH [OF this Cons.prems(2)] Cons.prems(3) Inr rows show ?thesis by simp
  qed
qed

text \<open>
  The single-segment case of \<open>combine_segs\<close> is reached from \<open>seglink_to_bbox\<close>: whenever
  an anchor at or above the segment threshold is on no qualifying link, its group is a
  singleton and the run ends in \<open>AssertionError\<close>.
\<close>

lemma seglink_to_bbox_isolated_raises:
  assumes N: "length seg_scores = num_anchors (feat_shapes cfg)"
    and M: "length link_scores = num_links (feat_shapes cfg)"
    and ord: "\<forall>ks. distinct ks \<longrightarrow> distinct (dict_order ks) \<and> set (dict_order ks) = set ks"
    and segs: "length segs = length seg_scores"
    and i: "i < length seg_scores" "seg_scores ! i \<ge> seg_confidence_threshold cfg"
    and iso: "\<forall>(a, b) \<in> set (qualifying_links cfg seg_scores link_scores). a \<noteq> i \<and> b \<noteq> i"
  shows "seglink_to_bbox dict_order cfg seg_scores link_scores segs = Some (Inl AssertionError)"
proof -
  let ?V = "valid_segs cfg seg_scores"
  let ?E = "link_edges cfg seg_scores link_scores"
  from group_segs_to_list [OF N M] obtain m' where
    run: "group_segs dict_order cfg seg_scores link_scores = to_list dict_order m'"
    and inv: "uf_inv ?V ?E m'"
    by blast
  from to_list_groups [OF inv ord] obtain groups where
    g: "to_list dict_order m' = Some (Inr groups)"
    and all: "set (concat groups) = set ?V"
    and single: "\<forall>k \<in> set ?V. (\<forall>(a, b) \<in> ?E. a \<noteq> k \<and> b \<noteq> k) \<longrightarrow> [k] \<in> set groups"
    by blast
  from i have "int i \<in> set ?V" by (simp add: valid_segs_mem)
  with isolated_in_link_edges [OF iso] single have mem: "[int i] \<in> set groups" by blast
  have rng: "\<forall>idx \<in> set (concat groups). 0 \<le> idx \<and> idx < int (length segs)"
    unfolding all valid_segs_set using segs by auto
  from seglink_loop_singleton [OF mem _ rng] run g show ?thesis
    by (simp add: seglink_to_bbox_def)
qed

lemma seglink_to_bbox_example:
  "seglink_to_bbox rev grouping_config [9 / 10, 4 / 5, 7 / 10]
     [0, 0, 0, 0, 9 / 10, 0, 0, 0,  0, 0, 0, 0, 0, 0, 0, 0,  0, 0, 0, 0, 0, 0, 0, 0,  0, 0, 0, 0]
     [(0, 0, 10, 10, 0), (20, 0, 10, 10, 0), (100, 100, 50, 50, 0)]
   = Some (Inl AssertionError)"
proof (rule seglink_to_bbox_isolated_raises [where i = 2])
  show "\<forall>(a, b) \<in> set (qualifying_links grouping_config [9 / 10, 4 / 5, 7 / 10]
     [0, 0, 0, 0, 9 / 10, 0, 0, 0,  0, 0, 0, 0, 0, 0, 0, 0,  0, 0, 0, 0, 0, 0, 0, 0,  0, 0, 0, 0]).
     a \<noteq> 2 \<and> b \<noteq> 2"
    unfolding qualifying_links_example by simp
qed (simp_all add: grouping_config_def example_config_def num_anchors_def num_links_def)

end
